theory Spec2Isabelle
  imports Complex_Main "HOL-Library.AList" "HOL-Library.Multiset"
begin

section \<open>Decoded JSON values and Python's view of them\<close>

text \<open>
  \<^verbatim>\<open>json.loads\<close> returns \<^verbatim>\<open>None\<close>, a \<^verbatim>\<open>bool\<close>, an \<^verbatim>\<open>int\<close>, a \<^verbatim>\<open>float\<close>, a \<^verbatim>\<open>str\<close>,
  a \<^verbatim>\<open>list\<close> or a \<^verbatim>\<open>dict\<close> with string keys. A finite float is represented by its exact
  value. The characters of a string stand for code points below 256.
\<close>

datatype json =
    JNull
  | JBool bool
  | JInt int
  | JFloat rat
  | JStr string
  | JArr "json list"
  | JObj "(string \<times> json) list"

text \<open>
  Python dictionaries and sets identify keys by \<^verbatim>\<open>hash\<close> and \<^verbatim>\<open>==\<close>: \<^verbatim>\<open>True\<close>, \<^verbatim>\<open>1\<close> and
  \<^verbatim>\<open>1.0\<close> are one key, a string is another, and lists and dictionaries cannot be hashed
  at all (\<^verbatim>\<open>TypeError\<close>). A \<open>key\<close> is such an equivalence class.
\<close>

datatype key = KNull | KNum rat | KStr string

datatype error = AttributeError | TypeError | ValueError | RecursionError | UnicodeDecodeError

text \<open>
  What \<^verbatim>\<open>json.loads\<close> does with a text: it returns the decoded value, it raises
  \<^verbatim>\<open>JSONDecodeError\<close>, or it raises something else (a plain \<^verbatim>\<open>ValueError\<close> for an integer
  literal beyond the digit limit, \<^verbatim>\<open>RecursionError\<close> for too deep a nesting).
\<close>

datatype decoded = Decoded json | JSONDecodeError | Raised error

type_synonym issue = "(string \<times> json) list"
type_synonym issues = "(key \<times> issue) list"
type_synonym actions = "(key \<times> string) list"

fun hash_key :: "json \<Rightarrow> key option" where
  "hash_key JNull = Some KNull"
| "hash_key (JBool b) = Some (KNum (if b then 1 else 0))"
| "hash_key (JInt n) = Some (KNum (of_int n))"
| "hash_key (JFloat q) = Some (KNum q)"
| "hash_key (JStr s) = Some (KStr s)"
| "hash_key (JArr xs) = None"
| "hash_key (JObj kvs) = None"

text \<open>The truth value of an object, as \<^verbatim>\<open>if issue_id:\<close> tests it.\<close>

fun truthy :: "json \<Rightarrow> bool" where
  "truthy JNull = False"
| "truthy (JBool b) = b"
| "truthy (JInt n) = (n \<noteq> 0)"
| "truthy (JFloat q) = (q \<noteq> 0)"
| "truthy (JStr s) = (s \<noteq> [])"
| "truthy (JArr xs) = (xs \<noteq> [])"
| "truthy (JObj kvs) = (kvs \<noteq> [])"

text \<open>\<^verbatim>\<open>d.get(k, default)\<close> on a dictionary.\<close>

definition dict_get :: "issue \<Rightarrow> string \<Rightarrow> json \<Rightarrow> json" where
  "dict_get d k dflt = (case map_of d k of None \<Rightarrow> dflt | Some v \<Rightarrow> v)"

text \<open>
  \<^verbatim>\<open>title[:50]\<close>: a string or a list is cut to its first 50 items; any other value
  cannot be sliced and the expression raises.
\<close>

fun slice50 :: "json \<Rightarrow> error + json" where
  "slice50 (JStr s) = Inr (JStr (take 50 s))"
| "slice50 (JArr xs) = Inr (JArr (take 50 xs))"
| "slice50 v = Inl TypeError"

text \<open>\<^verbatim>\<open>str.strip()\<close>: the characters \<^verbatim>\<open>str.isspace\<close> accepts, below code point 256.\<close>

definition is_space :: "char \<Rightarrow> bool" where
  "is_space c = (of_char c \<in> ({9..13} \<union> {28..32} \<union> {133, 160} :: nat set))"

definition strip :: "string \<Rightarrow> string" where
  "strip s = rev (dropWhile is_space (rev (dropWhile is_space s)))"

section \<open>The environment of the daemon\<close>

text \<open>
  What the daemon prints, by kind of message.
\<close>

datatype notice =
    ErrorReading
  | Spawning key json
  | Terminating key
  | Started
  | Changed
  | ActionCount nat
  | Stopped

text \<open>
  The session manager is imported from another module. Its three operations are parameters
  of the model, over a state \<open>'r\<close> of the manager's own: \<open>list_sessions\<close> gives the
  \<^verbatim>\<open>bead_id\<close> of every active session, \<open>spawn_session\<close> tells whether a session object
  came back, \<open>terminate_session\<close> returns its boolean. \<open>json_loads\<close> is the decoder of the
  standard library, and \<open>set_order\<close> is the order in which
  a \<^verbatim>\<open>for\<close> loop visits the members of a set.
\<close>

record 'r env =
  json_loads :: "string \<Rightarrow> decoded"
  set_order :: "key list \<Rightarrow> key list"
  list_sessions :: "'r \<Rightarrow> key list"
  spawn_session :: "key \<Rightarrow> 'r \<Rightarrow> bool \<times> 'r"
  terminate_session :: "key \<Rightarrow> 'r \<Rightarrow> bool \<times> 'r"

definition order_ok :: "'r env \<Rightarrow> bool" where
  "order_ok e = (\<forall>xs. mset (set_order e xs) = mset xs)"

text \<open>
  The world a pass runs in: the state of the session manager, and the trace of the calls
  made to it and of the messages printed, in the order they happened.
\<close>

datatype event =
    ListCall
  | SpawnCall key bool
  | TerminateCall key bool
  | Print notice

record 'r world =
  registry :: 'r
  trace :: "event list"

definition emit :: "event \<Rightarrow> 'r world \<Rightarrow> 'r world" where
  "emit ev w = w\<lparr>trace := trace w @ [ev]\<rparr>"

text \<open>
  The issues file as the loader meets it: absent, present but failing on \<^verbatim>\<open>open\<close>, or a
  sequence of lines in which a read may fail with \<^verbatim>\<open>IOError\<close> (\<open>ReadFault\<close>) or meet bytes
  that are not text in the file's encoding, which raises \<^verbatim>\<open>UnicodeDecodeError\<close> (\<open>BadBytes\<close>).
\<close>

datatype read_item = Line string | ReadFault | BadBytes

datatype issues_file = Absent | OpenFails | Lines "read_item list"

section \<open>load\_issues\<close>

fun load_lines :: "(string \<Rightarrow> decoded) \<Rightarrow> read_item list \<Rightarrow> issues \<Rightarrow> (error + issues) \<times> notice list" where
  "load_lines loads [] issues = (Inr issues, [])"
| "load_lines loads (ReadFault # rest) issues = (Inr issues, [ErrorReading])"
| "load_lines loads (Line l # rest) issues =
     (let line = strip l in
      if line \<noteq> [] then
        (case loads line of
           JSONDecodeError \<Rightarrow> load_lines loads rest issues
         | Raised err \<Rightarrow> (Inl err, [])
         | Decoded (JObj issue) \<Rightarrow>
             (let issue_id = dict_get issue ''id'' JNull in
              if truthy issue_id then
                (case hash_key issue_id of
                   None \<Rightarrow> (Inl TypeError, [])
                 | Some k \<Rightarrow> load_lines loads rest (AList.update k issue issues))
              else load_lines loads rest issues)
         | Decoded _ \<Rightarrow> (Inl AttributeError, []))
      else load_lines loads rest issues)"
| "load_lines loads (BadBytes # rest) issues = (Inl UnicodeDecodeError, [])"

definition load_issues :: "(string \<Rightarrow> decoded) \<Rightarrow> issues_file \<Rightarrow> (error + issues) \<times> notice list" where
  "load_issues loads f =
     (case f of
        Absent \<Rightarrow> (Inr [], [])
      | OpenFails \<Rightarrow> (Inr [], [ErrorReading])
      | Lines items \<Rightarrow> load_lines loads items [])"

section \<open>Classification\<close>

definition get_in_progress_beads :: "issues \<Rightarrow> key list" where
  "get_in_progress_beads issues =
     map fst (filter (\<lambda>(issue_id, issue). dict_get issue ''status'' JNull = JStr ''in_progress'') issues)"

definition closed_statuses :: "string list" where
  "closed_statuses = [''closed'', ''done'', ''blocked'', ''blocking'', ''cancelled'', ''wontfix'']"

text \<open>\<^verbatim>\<open>v in closed_statuses\<close> hashes \<open>v\<close> first.\<close>

definition in_closed_statuses :: "json \<Rightarrow> error + bool" where
  "in_closed_statuses v =
     (case hash_key v of
        None \<Rightarrow> Inl TypeError
      | Some k \<Rightarrow> Inr (k \<in> KStr ` set closed_statuses))"

fun get_closed_beads :: "issues \<Rightarrow> error + key list" where
  "get_closed_beads [] = Inr []"
| "get_closed_beads ((issue_id, issue) # rest) =
     (case in_closed_statuses (dict_get issue ''status'' JNull) of
        Inl e \<Rightarrow> Inl e
      | Inr b \<Rightarrow>
          (case get_closed_beads rest of
             Inl e \<Rightarrow> Inl e
           | Inr ids \<Rightarrow> Inr (if b then issue_id # ids else ids)))"

section \<open>sync\_sessions\<close>

definition AUTO_SPAWN_ENABLED :: bool where
  "AUTO_SPAWN_ENABLED = True"

definition AUTO_TERMINATE_ENABLED :: bool where
  "AUTO_TERMINATE_ENABLED = True"

text \<open>
  \<^verbatim>\<open>issues.get(bead_id, {}).get("title", "Unknown")\<close>, the title a spawn line shows.
\<close>

definition bead_title :: "issues \<Rightarrow> key \<Rightarrow> json" where
  "bead_title issues bead_id =
     (let issue = (case map_of issues bead_id of None \<Rightarrow> [] | Some d \<Rightarrow> d)
      in dict_get issue ''title'' (JStr ''Unknown''))"

fun spawn_loop :: "'r env \<Rightarrow> bool \<Rightarrow> bool \<Rightarrow> issues \<Rightarrow> key list \<Rightarrow> actions \<Rightarrow> 'r world \<Rightarrow> (error + actions) \<times> 'r world" where
  "spawn_loop e dry_run verbose issues [] acts w = (Inr acts, w)"
| "spawn_loop e dry_run verbose issues (bead_id # rest) acts w =
     (let title = bead_title issues bead_id;
          shown = (if verbose then
                     (case slice50 title of
                        Inl err \<Rightarrow> Inl err
                      | Inr t \<Rightarrow> Inr (emit (Print (Spawning bead_id t)) w))
                   else Inr w)
      in case shown of
           Inl err \<Rightarrow> (Inl err, w)
         | Inr w1 \<Rightarrow>
             if \<not> dry_run then
               (let (session, r) = spawn_session e bead_id (registry w1);
                    w2 = emit (SpawnCall bead_id session) (w1\<lparr>registry := r\<rparr>)
                in if session
                   then spawn_loop e dry_run verbose issues rest (AList.update bead_id ''spawned'' acts) w2
                   else spawn_loop e dry_run verbose issues rest (AList.update bead_id ''spawn_failed'' acts) w2)
             else spawn_loop e dry_run verbose issues rest (AList.update bead_id ''would_spawn'' acts) w1)"

fun terminate_loop :: "'r env \<Rightarrow> bool \<Rightarrow> bool \<Rightarrow> key list \<Rightarrow> actions \<Rightarrow> 'r world \<Rightarrow> actions \<times> 'r world" where
  "terminate_loop e dry_run verbose [] acts w = (acts, w)"
| "terminate_loop e dry_run verbose (bead_id # rest) acts w =
     (let w1 = (if verbose then emit (Print (Terminating bead_id)) w else w)
      in if \<not> dry_run then
           (let (ok, r) = terminate_session e bead_id (registry w1);
                w2 = emit (TerminateCall bead_id ok) (w1\<lparr>registry := r\<rparr>)
            in if ok
               then terminate_loop e dry_run verbose rest (AList.update bead_id ''terminated'' acts) w2
               else terminate_loop e dry_run verbose rest (AList.update bead_id ''terminate_failed'' acts) w2)
         else terminate_loop e dry_run verbose rest (AList.update bead_id ''would_terminate'' acts) w1)"

text \<open>
  The two sets a pass works on, as the source computes them from the snapshot, the
  closed ids and the ids of the active sessions.
\<close>

definition need_spawn :: "'r env \<Rightarrow> key list \<Rightarrow> key list \<Rightarrow> key list" where
  "need_spawn e in_progress active_sessions =
     set_order e (filter (\<lambda>b. b \<notin> set active_sessions) (remdups in_progress))"

definition need_terminate :: "'r env \<Rightarrow> key list \<Rightarrow> key list \<Rightarrow> key list" where
  "need_terminate e active_sessions closed_ids =
     set_order e (filter (\<lambda>b. b \<in> set closed_ids) (remdups active_sessions))"

definition sync_sessions :: "'r env \<Rightarrow> bool \<Rightarrow> bool \<Rightarrow> issues_file \<Rightarrow> 'r world \<Rightarrow> (error + actions) \<times> 'r world" where
  "sync_sessions e dry_run verbose f w =
     (case load_issues (json_loads e) f of
        (Inl err, printed) \<Rightarrow> (Inl err, w\<lparr>trace := trace w @ map Print printed\<rparr>)
      | (Inr issues, printed) \<Rightarrow>
          (let w0 = w\<lparr>trace := trace w @ map Print printed\<rparr>;
               in_progress = get_in_progress_beads issues
           in case get_closed_beads issues of
                Inl err \<Rightarrow> (Inl err, w0)
              | Inr closed_ids \<Rightarrow>
                  (let active_sessions = list_sessions e (registry w0);
                       w1 = emit ListCall w0;
                       spawned = (if AUTO_SPAWN_ENABLED
                                  then spawn_loop e dry_run verbose issues
                                         (need_spawn e in_progress active_sessions) [] w1
                                  else (Inr [], w1))
                   in case spawned of
                        (Inl err, w2) \<Rightarrow> (Inl err, w2)
                      | (Inr acts, w2) \<Rightarrow>
                          (if AUTO_TERMINATE_ENABLED
                           then (case terminate_loop e dry_run verbose
                                        (need_terminate e active_sessions closed_ids) acts w2 of
                                   (acts', w3) \<Rightarrow> (Inr acts', w3))
                           else (Inr acts, w2)))))"

section \<open>watch\_loop\<close>

text \<open>
  What one tick of the loop observes: the issues file and, when it exists, its
  modification time. \<^verbatim>\<open>last_mtime\<close> is the only state the loop keeps.
\<close>

type_synonym observation = "issues_file \<times> rat"

definition watch_tick :: "'r env \<Rightarrow> bool \<Rightarrow> bool \<Rightarrow> observation \<Rightarrow> rat \<Rightarrow> 'r world \<Rightarrow> (error + rat) \<times> 'r world" where
  "watch_tick e dry_run verbose ob last_mtime w =
     (case ob of (f, mtime) \<Rightarrow>
        if f \<noteq> Absent then
          (if mtime > last_mtime then
             (let w1 = (if last_mtime > 0 then emit (Print Changed) w else w)
              in case sync_sessions e dry_run verbose f w1 of
                   (Inl err, w2) \<Rightarrow> (Inl err, w2)
                 | (Inr acts, w2) \<Rightarrow>
                     (Inr mtime, if acts \<noteq> [] then emit (Print (ActionCount (length acts))) w2 else w2))
           else (Inr last_mtime, w))
        else (Inr last_mtime, w))"

text \<open>
  The loop body runs once for each observation made before the interrupt arrives; an
  exception of a pass leaves the loop at once. The source returns nothing; the model
  returns the last value of \<^verbatim>\<open>last_mtime\<close>, so that it can be read.
\<close>

fun watch_ticks :: "'r env \<Rightarrow> bool \<Rightarrow> bool \<Rightarrow> observation list \<Rightarrow> rat \<Rightarrow> 'r world \<Rightarrow> (error + rat) \<times> 'r world" where
  "watch_ticks e dry_run verbose [] last_mtime w = (Inr last_mtime, emit (Print Stopped) w)"
| "watch_ticks e dry_run verbose (ob # obs) last_mtime w =
     (case watch_tick e dry_run verbose ob last_mtime w of
        (Inl err, w') \<Rightarrow> (Inl err, w')
      | (Inr m, w') \<Rightarrow> watch_ticks e dry_run verbose obs m w')"

definition watch_loop :: "'r env \<Rightarrow> bool \<Rightarrow> bool \<Rightarrow> observation list \<Rightarrow> 'r world \<Rightarrow> (error + rat) \<times> 'r world" where
  "watch_loop e dry_run verbose obs w = watch_ticks e dry_run verbose obs 0 (emit (Print Started) w)"

section \<open>Reading a trace\<close>

text \<open>The events of a trace that are spawn or terminate calls to the session manager.\<close>

fun is_command :: "event \<Rightarrow> bool" where
  "is_command (SpawnCall b r) = True"
| "is_command (TerminateCall b r) = True"
| "is_command ev = False"

definition commands :: "event list \<Rightarrow> event list" where
  "commands evs = filter is_command evs"

section \<open>A sample environment\<close>

text \<open>
  A decoder that agrees with \<^verbatim>\<open>json.loads\<close> on the texts used in the examples below (every
  other text of the examples is not JSON), and a session manager that keeps the list of
  live ids and refuses the ids it is told to refuse.
\<close>

definition sample_table :: "(string \<times> json) list" where
  \<open>sample_table =
     [(''{"id":"W1","status":"in_progress"}'',
         JObj [(''id'', JStr ''W1''), (''status'', JStr ''in_progress'')]),
      (''{"id":"W2","status":"in_progress","title":"Second"}'',
         JObj [(''id'', JStr ''W2''), (''status'', JStr ''in_progress''), (''title'', JStr ''Second'')]),
      (''{"id":"W3","status":"closed"}'',
         JObj [(''id'', JStr ''W3''), (''status'', JStr ''closed'')]),
      (''{"id":"W1","status":"done"}'',
         JObj [(''id'', JStr ''W1''), (''status'', JStr ''done'')]),
      (''{"id":"","status":"in_progress"}'',
         JObj [(''id'', JStr []), (''status'', JStr ''in_progress'')]),
      (''42'', JInt 42)]\<close>

definition sample_loads :: "string \<Rightarrow> decoded" where
  "sample_loads s = (case map_of sample_table s of None \<Rightarrow> JSONDecodeError | Some v \<Rightarrow> Decoded v)"

definition sample_env :: "key list \<Rightarrow> (key list) env" where
  "sample_env refused =
     \<lparr>json_loads = sample_loads,
      set_order = (\<lambda>xs. xs),
      list_sessions = (\<lambda>r. r),
      spawn_session = (\<lambda>b r. if b \<in> set refused then (False, r) else (True, r @ [b])),
      terminate_session = (\<lambda>b r. if b \<in> set refused then (False, r) else (True, removeAll b r))\<rparr>"

definition line_W1 :: string where
  \<open>line_W1 = ''{"id":"W1","status":"in_progress"}\<newline>''\<close>

definition line_W2 :: string where
  \<open>line_W2 = ''  {"id":"W2","status":"in_progress","title":"Second"}\<newline>''\<close>

definition line_W3 :: string where
  \<open>line_W3 = ''{"id":"W3","status":"closed"}\<newline>''\<close>

definition line_W1_done :: string where
  \<open>line_W1_done = ''{"id":"W1","status":"done"}\<newline>''\<close>

definition line_truncated :: string where
  \<open>line_truncated = ''{"id":"W4","sta\<newline>''\<close>

definition line_empty_id :: string where
  \<open>line_empty_id = ''{"id":"","status":"in_progress"}\<newline>''\<close>

definition line_number :: string where
  \<open>line_number = ''42\<newline>''\<close>

definition sample_file :: issues_file where
  "sample_file = Lines [Line line_W1, Line line_truncated, Line ''\<newline>'', Line line_W2, Line line_W3]"

definition rewritten_file :: issues_file where
  "rewritten_file = Lines [Line line_W1, Line line_W3, Line line_W1_done]"

definition faulty_file :: issues_file where
  "faulty_file = Lines [Line line_W1, ReadFault, Line line_W3]"

definition sample_snapshot :: issues where
  "sample_snapshot =
     [(KStr ''W1'', [(''id'', JStr ''W1''), (''status'', JStr ''in_progress'')]),
      (KStr ''W2'', [(''id'', JStr ''W2''), (''status'', JStr ''in_progress''), (''title'', JStr ''Second'')]),
      (KStr ''W3'', [(''id'', JStr ''W3''), (''status'', JStr ''closed'')])]"

definition sample_world :: "key list \<Rightarrow> (key list) world" where
  "sample_world live = \<lparr>registry = live, trace = []\<rparr>"

text \<open>The key a line of the file stores its record under, if it stores one.\<close>

definition stored_key :: "(string \<Rightarrow> decoded) \<Rightarrow> read_item \<Rightarrow> key option" where
  "stored_key loads it =
     (case it of
        Line l \<Rightarrow>
          (if strip l = [] then None
           else case loads (strip l) of
                  Decoded (JObj d) \<Rightarrow>
                    (if truthy (dict_get d ''id'' JNull) then hash_key (dict_get d ''id'' JNull) else None)
                | _ \<Rightarrow> None)
      | _ \<Rightarrow> None)"

text \<open>
  An item that the loader gets past: a line that is blank, that the decoder rejects with
  \<^verbatim>\<open>JSONDecodeError\<close>, or that holds a record whose \<^verbatim>\<open>id\<close> is false or can be hashed; or
  a failed read, which ends the load.
\<close>

definition loadable :: "(string \<Rightarrow> decoded) \<Rightarrow> read_item \<Rightarrow> bool" where
  "loadable loads it =
     (case it of
        ReadFault \<Rightarrow> True
      | BadBytes \<Rightarrow> False
      | Line l \<Rightarrow>
          (if strip l = [] then True
           else case loads (strip l) of
                  JSONDecodeError \<Rightarrow> True
                | Raised err \<Rightarrow> False
                | Decoded (JObj d) \<Rightarrow>
                    (if truthy (dict_get d ''id'' JNull) then hash_key (dict_get d ''id'' JNull) \<noteq> None
                     else True)
                | Decoded _ \<Rightarrow> False))"

section \<open>Properties of the loader\<close>

lemma update_set_cases:
  "(a, b) \<in> set (AList.update k v al) \<Longrightarrow> (a, b) = (k, v) \<or> (a, b) \<in> set al"
  by (induction al) (auto split: if_splits)

lemma load_lines_skip:
  assumes "strip l = [] \<or> loads (strip l) = JSONDecodeError"
  shows "load_lines loads (pre @ Line l # post) acc = load_lines loads (pre @ post) acc"
  using assms
proof (induction pre arbitrary: acc)
  case Nil
  then show ?case by (auto simp: Let_def)
next
  case (Cons it pre)
  show ?case
  proof (cases it)
    case (Line x)
    then show ?thesis using Cons
      by (auto simp: Let_def split: option.splits decoded.splits json.splits)
  next
    case ReadFault
    then show ?thesis by simp
  next
    case BadBytes
    then show ?thesis by simp
  qed
qed

lemma load_lines_skip_falsy:
  assumes "loads (strip l) = Decoded (JObj d)" "\<not> truthy (dict_get d ''id'' JNull)"
  shows "load_lines loads (pre @ Line l # post) acc = load_lines loads (pre @ post) acc"
  using assms
proof (induction pre arbitrary: acc)
  case Nil
  then show ?case by (auto simp: Let_def)
next
  case (Cons it pre)
  show ?case
  proof (cases it)
    case (Line x)
    then show ?thesis using Cons
      by (auto simp: Let_def split: option.splits decoded.splits json.splits)
  next
    case ReadFault
    then show ?thesis by simp
  next
    case BadBytes
    then show ?thesis by simp
  qed
qed

lemma truthy_key_nonempty:
  "truthy v \<Longrightarrow> hash_key v = Some k \<Longrightarrow> k \<noteq> KNull \<and> k \<noteq> KNum 0 \<and> k \<noteq> KStr []"
  by (cases v) (auto split: if_splits)

lemma load_lines_origin:
  assumes "load_lines loads items acc = (Inr snap, ns)" "(k, d) \<in> set snap"
  shows "(k, d) \<in> set acc \<or>
         (\<exists>l. Line l \<in> set items \<and> strip l \<noteq> [] \<and> loads (strip l) = Decoded (JObj d) \<and>
              truthy (dict_get d ''id'' JNull) \<and> hash_key (dict_get d ''id'' JNull) = Some k)"
  using assms
proof (induction loads items acc rule: load_lines.induct)
  case (1 loads issues)
  then show ?case by simp
next
  case (2 loads rest issues)
  then show ?case by simp
next
  case (3 loads l rest issues)
  then show ?case
    by (fastforce simp: Let_def split: if_splits option.splits decoded.splits json.splits dest: update_set_cases)
next
  case (4 loads rest issues)
  then show ?case by simp
qed

lemma load_lines_distinct:
  assumes "load_lines loads items acc = (Inr snap, ns)" "distinct (map fst acc)"
  shows "distinct (map fst snap)"
  using assms
proof (induction loads items acc rule: load_lines.induct)
  case (3 loads l rest issues)
  then show ?case
    by (auto simp: Let_def distinct_update split: if_splits option.splits decoded.splits json.splits)
qed auto

lemma load_lines_step:
  assumes "load_lines loads (Line l # post) acc = (Inr snap, ns)"
  shows "(stored_key loads (Line l) = None \<and> load_lines loads post acc = (Inr snap, ns)) \<or>
         (\<exists>d k'. strip l \<noteq> [] \<and> loads (strip l) = Decoded (JObj d) \<and> stored_key loads (Line l) = Some k' \<and>
            load_lines loads post (AList.update k' d acc) = (Inr snap, ns))"
  using assms by (auto simp: Let_def stored_key_def split: if_splits option.splits decoded.splits json.splits)

lemma load_lines_later_keys:
  assumes "load_lines loads post acc = (Inr snap, ns)"
    and "\<forall>it \<in> set post. stored_key loads it \<noteq> Some k"
  shows "map_of snap k = map_of acc k"
  using assms
proof (induction post arbitrary: acc)
  case Nil
  then show ?case by simp
next
  case (Cons it post)
  have later: "\<forall>it \<in> set post. stored_key loads it \<noteq> Some k" and now: "stored_key loads it \<noteq> Some k"
    using Cons.prems(2) by simp_all
  show ?case
  proof (cases it)
    case ReadFault
    with Cons.prems(1) show ?thesis by simp
  next
    case BadBytes
    with Cons.prems(1) show ?thesis by simp
  next
    case (Line l)
    with Cons.prems(1) have "load_lines loads (Line l # post) acc = (Inr snap, ns)" by simp
    then consider
      (skip) "load_lines loads post acc = (Inr snap, ns)"
    | (store) d k' where "stored_key loads (Line l) = Some k'"
        "load_lines loads post (AList.update k' d acc) = (Inr snap, ns)"
      using load_lines_step by blast
    then show ?thesis
    proof cases
      case skip
      then show ?thesis using Cons.IH later by blast
    next
      case store
      from store(1) now Line have "k' \<noteq> k" by auto
      moreover have "map_of snap k = map_of (AList.update k' d acc) k"
        using Cons.IH[OF store(2) later] .
      ultimately show ?thesis by (simp add: update_conv')
    qed
  qed
qed

lemma load_lines_prefix:
  assumes "load_lines loads (pre @ rest) acc = (Inr snap, ns)" "ReadFault \<notin> set pre"
  shows "\<exists>acc'. load_lines loads rest acc' = (Inr snap, ns)"
  using assms
proof (induction pre arbitrary: acc)
  case Nil
  then show ?case by auto
next
  case (Cons it pre)
  then show ?case
    by (cases it) (auto simp: Let_def split: if_splits option.splits decoded.splits json.splits)
qed

lemma load_lines_no_fault:
  "snd (load_lines loads (map Line ls) acc) = []"
proof (induction ls arbitrary: acc)
  case (Cons l ls)
  then show ?case by (auto simp: Let_def split: option.splits decoded.splits json.splits)
qed simp

lemma load_lines_fault:
  "load_lines loads (map Line ls @ ReadFault # rest) acc =
     (case fst (load_lines loads (map Line ls) acc) of
        Inl err \<Rightarrow> (Inl err, [])
      | Inr snap \<Rightarrow> (Inr snap, [ErrorReading]))"
proof (induction ls arbitrary: acc)
  case (Cons l ls)
  then show ?case by (auto simp: Let_def split: option.splits decoded.splits json.splits)
qed simp

lemma load_lines_returns:
  assumes "list_all (loadable loads) items"
  shows "\<exists>snap ns. load_lines loads items acc = (Inr snap, ns)"
  using assms
proof (induction items arbitrary: acc)
  case Nil
  then show ?case by simp
next
  case (Cons it items)
  then have rest: "\<And>acc. \<exists>snap ns. load_lines loads items acc = (Inr snap, ns)"
    and here: "loadable loads it" by simp_all
  show ?case
  proof (cases it)
    case ReadFault
    then show ?thesis by simp
  next
    case BadBytes
    with here show ?thesis by (simp add: loadable_def)
  next
    case (Line l)
    with here rest show ?thesis
      by (auto simp: loadable_def Let_def split: if_splits option.splits decoded.splits json.splits)
  qed
qed

section \<open>Claims about the loader\<close>

lemmas sample_defs = sample_loads_def sample_table_def sample_env_def line_W1_def line_W2_def line_W3_def
  line_W1_done_def line_truncated_def line_empty_id_def line_number_def sample_file_def
  rewritten_file_def faulty_file_def strip_def is_space_def dict_get_def load_issues_def

text \<open>
  What the loader does skip: a missing file gives the empty snapshot, and a line on which
  \<^verbatim>\<open>json.loads\<close> raises \<^verbatim>\<open>JSONDecodeError\<close> is left out, the load being that of the file
  without the line.
\<close>

lemma load_issues_skips_undecodable:
  "load_issues loads Absent = (Inr [], []) \<and>
   (loads (strip l) = JSONDecodeError \<longrightarrow>
      load_issues loads (Lines (pre @ Line l # post)) = load_issues loads (Lines (pre @ post)))"
  by (simp add: load_issues_def load_lines_skip)

lemma load_issues_skips_truncated:
  "sample_loads (strip line_truncated) = JSONDecodeError \<and>
   load_issues sample_loads (Lines ([Line line_W1] @ Line line_truncated # [Line line_W3])) =
     (Inr [(KStr ''W1'', [(''id'', JStr ''W1''), (''status'', JStr ''in_progress'')]),
           (KStr ''W3'', [(''id'', JStr ''W3''), (''status'', JStr ''closed'')])], [])"
  by (simp add: sample_defs)

text \<open>
  What it does not skip: a line that decodes to a value that is not an object has no
  \<^verbatim>\<open>get\<close>, a record whose \<^verbatim>\<open>id\<close> is a non-empty list or object cannot be a key, and an
  error of the decoder other than \<^verbatim>\<open>JSONDecodeError\<close> or of the decoding of the bytes is
  caught by neither \<^verbatim>\<open>except\<close> clause. Each ends the load with the exception, whatever the
  lines before and after hold.
\<close>

lemma load_lines_not_an_object:
  assumes "strip l \<noteq> []" and "loads (strip l) = Decoded v" and "\<forall>d. v \<noteq> JObj d"
  shows "load_lines loads (Line l # rest) acc = (Inl AttributeError, [])"
  using assms by (cases v) (simp_all add: Let_def)

lemma load_lines_unhashable_id:
  assumes "strip l \<noteq> []" and "loads (strip l) = Decoded (JObj d)"
    and "truthy (dict_get d ''id'' JNull)" and "hash_key (dict_get d ''id'' JNull) = None"
  shows "load_lines loads (Line l # rest) acc = (Inl TypeError, [])"
  using assms by (simp add: Let_def)

lemma load_lines_decoder_raises:
  assumes "strip l \<noteq> []" and "loads (strip l) = Raised err"
  shows "load_lines loads (Line l # rest) acc = (Inl err, [])"
  using assms by (simp add: Let_def)

text \<open>
  C6. The claim has every non-blank line that is not a record skipped and every other line
  still loaded. The source does this for the lines that are not JSON only. At a file whose
  second line is the number 42, between the records of W1 and W3, the load ends with
  \<^verbatim>\<open>AttributeError\<close> and gives no snapshot, although the same file without that line
  loads both records.
\<close>

theorem load_issues_aborts_on_non_record:
  "strip line_number \<noteq> [] \<and>
   sample_loads (strip line_number) = Decoded (JInt 42) \<and>
   load_issues sample_loads (Lines [Line line_W1, Line line_number, Line line_W3]) =
     (Inl AttributeError, []) \<and>
   load_issues sample_loads (Lines [Line line_W1, Line line_W3]) =
     (Inr [(KStr ''W1'', [(''id'', JStr ''W1''), (''status'', JStr ''in_progress'')]),
           (KStr ''W3'', [(''id'', JStr ''W3''), (''status'', JStr ''closed'')])], [])"
  by (simp add: sample_defs)

text \<open>
  C7, as the code has it. An \<^verbatim>\<open>IOError\<close> on opening or reading the file is caught inside
  \<open>load_issues\<close>: a message is printed and the records read before the error are returned, so
  the pass goes on with that snapshot; whatever follows the failed read is not loaded.
\<close>

theorem io_error_caught:
  "load_issues loads OpenFails = (Inr [], [ErrorReading]) \<and>
   load_issues loads (Lines (map Line ls @ ReadFault # rest)) =
     (case fst (load_issues loads (Lines (map Line ls))) of
        Inl err \<Rightarrow> (Inl err, [])
      | Inr snap \<Rightarrow> (Inr snap, [ErrorReading])) \<and>
   sync_sessions e dry_run verbose (Lines (map Line ls @ ReadFault # rest)) w =
     (case fst (load_issues (json_loads e) (Lines (map Line ls))) of
        Inl err \<Rightarrow> (Inl err, w)
      | Inr snap \<Rightarrow> sync_sessions e dry_run verbose (Lines (map Line ls)) (emit (Print ErrorReading) w))"
proof -
  obtain r where r: "load_lines (json_loads e) (map Line ls) [] = (r, [])"
    using load_lines_no_fault[of "json_loads e" ls "[]"] by (cases "load_lines (json_loads e) (map Line ls) []") simp
  have "sync_sessions e dry_run verbose (Lines (map Line ls @ ReadFault # rest)) w =
     (case fst (load_issues (json_loads e) (Lines (map Line ls))) of
        Inl err \<Rightarrow> (Inl err, w)
      | Inr snap \<Rightarrow> sync_sessions e dry_run verbose (Lines (map Line ls)) (emit (Print ErrorReading) w))"
    by (cases r) (simp_all add: sync_sessions_def load_issues_def load_lines_fault r emit_def)
  then show ?thesis
    by (simp add: load_issues_def load_lines_fault)
qed

text \<open>
  C7 as stated fails: a read error after the first line is not propagated; the pass returns
  normally and has spawned a session from the partial snapshot.
\<close>

theorem io_error_not_propagated:
  "sync_sessions (sample_env []) False True faulty_file \<lparr>registry = [], trace = []\<rparr> =
     (Inr [(KStr ''W1'', ''spawned'')],
      \<lparr>registry = [KStr ''W1''],
         trace = [Print ErrorReading, ListCall,
                  Print (Spawning (KStr ''W1'') (JStr ''Unknown'')),
                  SpawnCall (KStr ''W1'') True]\<rparr>)"
  by (simp add: sample_defs sync_sessions_def get_in_progress_beads_def in_closed_statuses_def
      closed_statuses_def need_spawn_def need_terminate_def bead_title_def emit_def
      AUTO_SPAWN_ENABLED_def AUTO_TERMINATE_ENABLED_def)

text \<open>
  C8. When a line that is read stores a record under a key and no later line stores one
  under the same key, every snapshot the loader returns maps the key to that record: the
  last line wins. The loader does return a snapshot when it gets past every line. It takes
  no earlier snapshot; it starts from the empty one.
\<close>

theorem last_record_wins:
  assumes "ReadFault \<notin> set pre"
    and "strip l \<noteq> []" and "loads (strip l) = Decoded (JObj d)"
    and "stored_key loads (Line l) = Some k"
    and "\<forall>it \<in> set post. stored_key loads it \<noteq> Some k"
  shows "(\<forall>snap ns. load_issues loads (Lines (pre @ Line l # post)) = (Inr snap, ns) \<longrightarrow>
            map_of snap k = Some d) \<and>
         (list_all (loadable loads) (pre @ Line l # post) \<longrightarrow>
            (\<exists>snap ns. load_issues loads (Lines (pre @ Line l # post)) = (Inr snap, ns)))"
proof (intro conjI allI impI)
  fix snap ns
  assume "load_issues loads (Lines (pre @ Line l # post)) = (Inr snap, ns)"
  then have "load_lines loads (pre @ Line l # post) [] = (Inr snap, ns)"
    by (simp add: load_issues_def)
  with assms(1) obtain acc where "load_lines loads (Line l # post) acc = (Inr snap, ns)"
    using load_lines_prefix by blast
  with assms(2-4) have "load_lines loads post (AList.update k d acc) = (Inr snap, ns)"
    by (simp add: Let_def stored_key_def split: if_splits)
  then have "map_of snap k = map_of (AList.update k d acc) k"
    using assms(5) by (rule load_lines_later_keys)
  then show "map_of snap k = Some d" by (simp add: update_conv')
next
  assume "list_all (loadable loads) (pre @ Line l # post)"
  from load_lines_returns[OF this, of "[]"]
  show "\<exists>snap ns. load_issues loads (Lines (pre @ Line l # post)) = (Inr snap, ns)"
    by (simp add: load_issues_def)
qed

text \<open>C8, at a file that holds W1 twice, first in progress and then done.\<close>

theorem last_record_wins_witness:
  "ReadFault \<notin> set [Line line_W1, Line line_W3] \<and>
   strip line_W1_done \<noteq> [] \<and>
   sample_loads (strip line_W1_done) = Decoded (JObj [(''id'', JStr ''W1''), (''status'', JStr ''done'')]) \<and>
   stored_key sample_loads (Line line_W1) = Some (KStr ''W1'') \<and>
   stored_key sample_loads (Line line_W1_done) = Some (KStr ''W1'') \<and>
   list_all (loadable sample_loads) ([Line line_W1, Line line_W3] @ Line line_W1_done # []) \<and>
   load_issues sample_loads (Lines ([Line line_W1, Line line_W3] @ Line line_W1_done # [])) =
     (Inr [(KStr ''W1'', [(''id'', JStr ''W1''), (''status'', JStr ''done'')]),
           (KStr ''W3'', [(''id'', JStr ''W3''), (''status'', JStr ''closed'')])], []) \<and>
   map_of [(KStr ''W1'', [(''id'', JStr ''W1''), (''status'', JStr ''done'')]),
           (KStr ''W3'', [(''id'', JStr ''W3''), (''status'', JStr ''closed'')])] (KStr ''W1'')
     = Some [(''id'', JStr ''W1''), (''status'', JStr ''done'')]"
proof -
  have a: "ReadFault \<notin> set [Line line_W1, Line line_W3]" by simp
  have b: "strip line_W1_done \<noteq> []" by (simp add: sample_defs)
  have c: "sample_loads (strip line_W1_done) = Decoded (JObj [(''id'', JStr ''W1''), (''status'', JStr ''done'')])"
    by (simp add: sample_defs)
  have d: "stored_key sample_loads (Line line_W1) = Some (KStr ''W1'')"
    by (simp add: sample_defs stored_key_def)
  have e: "stored_key sample_loads (Line line_W1_done) = Some (KStr ''W1'')"
    by (simp add: sample_defs stored_key_def)
  have f: "\<forall>it \<in> set []. stored_key sample_loads it \<noteq> Some (KStr ''W1'')" by simp
  have g: "list_all (loadable sample_loads) ([Line line_W1, Line line_W3] @ Line line_W1_done # [])"
    by (simp add: sample_defs loadable_def)
  have h: "load_issues sample_loads (Lines ([Line line_W1, Line line_W3] @ Line line_W1_done # [])) =
     (Inr [(KStr ''W1'', [(''id'', JStr ''W1''), (''status'', JStr ''done'')]),
           (KStr ''W3'', [(''id'', JStr ''W3''), (''status'', JStr ''closed'')])], [])"
    by (simp add: sample_defs)
  note t = last_record_wins[OF a b c e f]
  from conjunct1[OF t] h
  have i: "map_of [(KStr ''W1'', [(''id'', JStr ''W1''), (''status'', JStr ''done'')]),
           (KStr ''W3'', [(''id'', JStr ''W3''), (''status'', JStr ''closed'')])] (KStr ''W1'')
     = Some [(''id'', JStr ''W1''), (''status'', JStr ''done'')]"
    by blast
  show ?thesis by (intro conjI a b c d e g h i)
qed

text \<open>
  C10. A line that decodes to a record without an \<^verbatim>\<open>id\<close>, or with an \<^verbatim>\<open>id\<close> that is
  false in Python's sense, is left out of the snapshot; and every entry of a loaded snapshot
  is a record of a line of the file, stored under the key of its non-empty \<^verbatim>\<open>id\<close>.
\<close>

theorem snapshot_keys:
  "(loads (strip l) = Decoded (JObj d') \<and> \<not> truthy (dict_get d' ''id'' JNull) \<longrightarrow>
      load_issues loads (Lines (pre @ Line l # post)) = load_issues loads (Lines (pre @ post))) \<and>
   (load_issues loads f = (Inr snap, ns) \<and> (k, d) \<in> set snap \<longrightarrow>
      k \<noteq> KNull \<and> k \<noteq> KNum 0 \<and> k \<noteq> KStr [] \<and>
      (\<exists>items l. f = Lines items \<and> Line l \<in> set items \<and> loads (strip l) = Decoded (JObj d) \<and>
          truthy (dict_get d ''id'' JNull) \<and> hash_key (dict_get d ''id'' JNull) = Some k))"
proof (intro conjI impI)
  assume "loads (strip l) = Decoded (JObj d') \<and> \<not> truthy (dict_get d' ''id'' JNull)"
  then show "load_issues loads (Lines (pre @ Line l # post)) = load_issues loads (Lines (pre @ post))"
    by (simp add: load_issues_def load_lines_skip_falsy)
next
  assume a: "load_issues loads f = (Inr snap, ns) \<and> (k, d) \<in> set snap"
  then obtain items where f: "f = Lines items" and ld: "load_lines loads items [] = (Inr snap, ns)"
    by (cases f) (auto simp: load_issues_def)
  from load_lines_origin[OF ld] a obtain l where
    l: "Line l \<in> set items" "loads (strip l) = Decoded (JObj d)"
       "truthy (dict_get d ''id'' JNull)" "hash_key (dict_get d ''id'' JNull) = Some k"
    by auto
  from truthy_key_nonempty[OF l(3,4)]
  show "k \<noteq> KNull" and "k \<noteq> KNum 0" and "k \<noteq> KStr []" by simp_all
  from f l show "\<exists>items l. f = Lines items \<and> Line l \<in> set items \<and> loads (strip l) = Decoded (JObj d) \<and>
          truthy (dict_get d ''id'' JNull) \<and> hash_key (dict_get d ''id'' JNull) = Some k"
    by blast
qed

text \<open>C10, at a file with a closed record and a record whose id is the empty string.\<close>

theorem snapshot_keys_witness:
  "sample_loads (strip line_empty_id) = Decoded (JObj [(''id'', JStr []), (''status'', JStr ''in_progress'')]) \<and>
   \<not> truthy (dict_get [(''id'', JStr []), (''status'', JStr ''in_progress'')] ''id'' JNull) \<and>
   load_issues sample_loads (Lines ([Line line_W3] @ Line line_empty_id # [])) =
     (Inr [(KStr ''W3'', [(''id'', JStr ''W3''), (''status'', JStr ''closed'')])], []) \<and>
   (KStr ''W3'', [(''id'', JStr ''W3''), (''status'', JStr ''closed'')]) \<in>
      set [(KStr ''W3'', [(''id'', JStr ''W3''), (''status'', JStr ''closed'')])] \<and>
   KStr ''W3'' \<noteq> KStr []"
  using snapshot_keys [of sample_loads line_empty_id
      "[(''id'', JStr []), (''status'', JStr ''in_progress'')]" "[Line line_W3]" "[]"
      "Lines [Line line_W3]" "[(KStr ''W3'', [(''id'', JStr ''W3''), (''status'', JStr ''closed'')])]" "[]"
      "KStr ''W3''" "[(''id'', JStr ''W3''), (''status'', JStr ''closed'')]"]
  by (simp add: sample_defs)

section \<open>Properties of the classification\<close>

lemma in_closed_statuses_Inr:
  "in_closed_statuses v = Inr b \<Longrightarrow> b = (\<exists>s \<in> set closed_statuses. v = JStr s)"
  by (cases v) (auto simp: in_closed_statuses_def split: if_splits)

lemma in_progress_not_closed:
  "in_closed_statuses (JStr ''in_progress'') = Inr False"
  by (simp add: in_closed_statuses_def closed_statuses_def)

lemma get_closed_beads_set:
  "get_closed_beads issues = Inr ids \<Longrightarrow>
   set ids = {k. \<exists>d. (k, d) \<in> set issues \<and> (\<exists>s \<in> set closed_statuses. dict_get d ''status'' JNull = JStr s)}"
proof (induction issues arbitrary: ids)
  case Nil
  then show ?case by simp
next
  case (Cons p rest)
  obtain k d where p: "p = (k, d)" by (cases p)
  from Cons.prems p obtain b ids' where
    b: "in_closed_statuses (dict_get d ''status'' JNull) = Inr b"
    and r: "get_closed_beads rest = Inr ids'"
    and i: "ids = (if b then k # ids' else ids')"
    by (auto split: sum.splits)
  have b': "b = (\<exists>s \<in> set closed_statuses. dict_get d ''status'' JNull = JStr s)"
    using b by (rule in_closed_statuses_Inr)
  show ?case
    unfolding i p using Cons.IH[OF r] b' by auto
qed

lemma get_in_progress_beads_set:
  "set (get_in_progress_beads issues) =
     {k. \<exists>d. (k, d) \<in> set issues \<and> dict_get d ''status'' JNull = JStr ''in_progress''}"
  by (force simp: get_in_progress_beads_def)

lemma classes_disjoint:
  assumes "distinct (map fst issues)" "get_closed_beads issues = Inr ids"
  shows "set (get_in_progress_beads issues) \<inter> set ids = {}"
proof -
  have "False" if "(k, d) \<in> set issues" "dict_get d ''status'' JNull = JStr ''in_progress''"
      "(k, d') \<in> set issues" "s \<in> set closed_statuses" "dict_get d' ''status'' JNull = JStr s"
    for k d d' s
  proof -
    from assms(1) that(1,3) have "d = d'" by (meson eq_key_imp_eq_value)
    with that show False by (auto simp: closed_statuses_def)
  qed
  note contra = this
  show ?thesis
  proof (rule ccontr)
    assume "set (get_in_progress_beads issues) \<inter> set ids \<noteq> {}"
    then obtain k where a: "k \<in> set (get_in_progress_beads issues)" and b: "k \<in> set ids"
      by blast
    from a obtain d where d: "(k, d) \<in> set issues" "dict_get d ''status'' JNull = JStr ''in_progress''"
      unfolding get_in_progress_beads_set by blast
    from b obtain d' s where d': "(k, d') \<in> set issues" "s \<in> set closed_statuses"
        "dict_get d' ''status'' JNull = JStr s"
      unfolding get_closed_beads_set[OF assms(2)] by blast
    from contra[OF d d'] show False .
  qed
qed

section \<open>Properties of the two loops of a pass\<close>

lemma commands_append [simp]: "commands (xs @ ys) = commands xs @ commands ys"
  by (simp add: commands_def)

lemma commands_Nil [simp]: "commands [] = []"
  by (simp add: commands_def)

lemma commands_Cons [simp]:
  "commands (ev # evs) = (if is_command ev then ev # commands evs else commands evs)"
  by (simp add: commands_def)

lemma spawn_loop_go:
  assumes ok: "v \<longrightarrow> (\<exists>t. slice50 (bead_title issues b) = Inr t)"
  shows "\<exists>x w1 evs. spawn_loop e d v issues (b # rest) acts w =
             spawn_loop e d v issues rest (AList.update b x acts) w1 \<and>
           trace w1 = trace w @ evs \<and> Print Changed \<notin> set evs \<and>
           (if d then x = ''would_spawn'' \<and> registry w1 = registry w \<and> commands evs = []
            else \<exists>r. x = (if r then ''spawned'' else ''spawn_failed'') \<and> commands evs = [SpawnCall b r])"
proof -
  define res where "res = spawn_session e b (registry w)"
  define pr where "pr = (if v then [Print (Spawning b (projr (slice50 (bead_title issues b))))] else [])"
  define x where "x = (if d then ''would_spawn'' else if fst res then ''spawned'' else ''spawn_failed'')"
  define evs where "evs = (if d then pr else pr @ [SpawnCall b (fst res)])"
  define w1 where "w1 = (if d then w\<lparr>trace := trace w @ evs\<rparr>
                         else w\<lparr>registry := snd res, trace := trace w @ evs\<rparr>)"
  have run: "spawn_loop e d v issues (b # rest) acts w =
             spawn_loop e d v issues rest (AList.update b x acts) w1"
    using ok
    by (auto simp: Let_def emit_def res_def pr_def x_def w1_def evs_def split: if_splits sum.splits prod.splits)
  have tr: "trace w1 = trace w @ evs" by (simp add: w1_def)
  have nc: "Print Changed \<notin> set evs" by (simp add: evs_def pr_def)
  have cm: "if d then x = ''would_spawn'' \<and> registry w1 = registry w \<and> commands evs = []
            else \<exists>r. x = (if r then ''spawned'' else ''spawn_failed'') \<and> commands evs = [SpawnCall b r]"
    by (auto simp: x_def w1_def evs_def pr_def)
  from run tr nc cm show ?thesis by blast
qed

lemma spawn_loop_raise:
  assumes "v" "slice50 (bead_title issues b) = Inl err"
  shows "spawn_loop e d v issues (b # rest) acts w = (Inl err, w)"
  using assms by (simp add: Let_def)

lemma spawn_loop_step:
  assumes "spawn_loop e d v issues (b # rest) acts w = (Inr acts', w')"
  shows "\<exists>x w1 evs. spawn_loop e d v issues rest (AList.update b x acts) w1 = (Inr acts', w') \<and>
           trace w1 = trace w @ evs \<and> Print Changed \<notin> set evs \<and>
           (v \<longrightarrow> (\<exists>t. slice50 (bead_title issues b) = Inr t)) \<and>
           (if d then x = ''would_spawn'' \<and> registry w1 = registry w \<and> commands evs = []
            else \<exists>r. x = (if r then ''spawned'' else ''spawn_failed'') \<and> commands evs = [SpawnCall b r])"
proof -
  have ok: "v \<longrightarrow> (\<exists>t. slice50 (bead_title issues b) = Inr t)"
    using assms by (auto simp: Let_def split: sum.splits)
  from spawn_loop_go[OF ok, of e d rest acts w] assms ok show ?thesis
    by (elim exE conjE) (intro exI conjI, simp_all)
qed

lemma spawn_loop_trace:
  "\<exists>evs. trace (snd (spawn_loop e d v issues bs acts w)) = trace w @ evs \<and> Print Changed \<notin> set evs"
proof (induction bs arbitrary: acts w)
  case Nil
  then show ?case by simp
next
  case (Cons b bs)
  show ?case
  proof (cases "v \<longrightarrow> (\<exists>t. slice50 (bead_title issues b) = Inr t)")
    case True
    from spawn_loop_go[OF True, of e d bs acts w] obtain x w1 evs where
      eq: "spawn_loop e d v issues (b # bs) acts w = spawn_loop e d v issues bs (AList.update b x acts) w1"
      and tr: "trace w1 = trace w @ evs" "Print Changed \<notin> set evs"
      by blast
    from Cons.IH[of "AList.update b x acts" w1] obtain evs' where
      "trace (snd (spawn_loop e d v issues bs (AList.update b x acts) w1)) = trace w1 @ evs'"
      "Print Changed \<notin> set evs'" by blast
    with eq tr have "trace (snd (spawn_loop e d v issues (b # bs) acts w)) = trace w @ (evs @ evs')"
      "Print Changed \<notin> set (evs @ evs')" by simp_all
    then show ?thesis by blast
  next
    case False
    then obtain err where "v" "slice50 (bead_title issues b) = Inl err"
      by (cases "slice50 (bead_title issues b)") auto
    then have eq: "spawn_loop e d v issues (b # bs) acts w = (Inl err, w)"
      by (rule spawn_loop_raise)
    show ?thesis unfolding eq by simp
  qed
qed

lemma spawn_loop_total:
  assumes "v \<longrightarrow> (\<forall>b \<in> set bs. \<exists>t. slice50 (bead_title issues b) = Inr t)"
  shows "\<exists>acts' w'. spawn_loop e d v issues bs acts w = (Inr acts', w')"
  using assms
proof (induction bs arbitrary: acts w)
  case Nil
  then show ?case by simp
next
  case (Cons b bs)
  then show ?case
    by (auto simp: Let_def split: if_splits sum.splits prod.splits)
qed

lemma spawn_loop_keys:
  assumes "spawn_loop e d v issues bs acts w = (Inr acts', w')"
  shows "fst ` set acts' = fst ` set acts \<union> set bs"
  using assms
proof (induction bs arbitrary: acts w)
  case Nil
  then show ?case by simp
next
  case (Cons b bs)
  from spawn_loop_step[OF Cons.prems] obtain x w1 where
    "spawn_loop e d v issues bs (AList.update b x acts) w1 = (Inr acts', w')" by blast
  from Cons.IH[OF this] show ?case by (simp add: dom_update)
qed

lemma spawn_loop_others:
  assumes "spawn_loop e d v issues bs acts w = (Inr acts', w')" "b \<notin> set bs"
  shows "map_of acts' b = map_of acts b"
  using assms
proof (induction bs arbitrary: acts w)
  case Nil
  then show ?case by simp
next
  case (Cons c bs)
  from spawn_loop_step[OF Cons.prems(1)] obtain x w1 where
    "spawn_loop e d v issues bs (AList.update c x acts) w1 = (Inr acts', w')" by blast
  from Cons.IH[OF this] Cons.prems(2) show ?case by (simp add: update_conv')
qed

lemma spawn_loop_dry:
  assumes "spawn_loop e True v issues bs acts w = (Inr acts', w')"
  shows "registry w' = registry w \<and> (\<exists>evs. trace w' = trace w @ evs \<and> commands evs = []) \<and>
         (\<forall>b \<in> set bs. map_of acts' b = Some ''would_spawn'')"
  using assms
proof (induction bs arbitrary: acts w)
  case Nil
  then show ?case by simp
next
  case (Cons c bs)
  from spawn_loop_step[OF Cons.prems(1)] obtain w1 evs where
    s: "spawn_loop e True v issues bs (AList.update c ''would_spawn'' acts) w1 = (Inr acts', w')"
    and t: "trace w1 = trace w @ evs" "registry w1 = registry w" "commands evs = []"
    by auto
  from Cons.IH[OF s] obtain evs' where
    r: "registry w' = registry w1" and t': "trace w' = trace w1 @ evs'" "commands evs' = []"
    and m: "\<forall>b \<in> set bs. map_of acts' b = Some ''would_spawn''"
    by blast
  have "map_of acts' c = Some ''would_spawn''"
  proof (cases "c \<in> set bs")
    case True
    with m show ?thesis by blast
  next
    case False
    from spawn_loop_others[OF s False] show ?thesis by (simp add: update_conv')
  qed
  moreover have "trace w' = trace w @ (evs @ evs')" "commands (evs @ evs') = []"
    using t t' by simp_all
  ultimately show ?case using r t(2) m by (metis set_ConsD)
qed

lemma spawn_loop_calls:
  assumes "spawn_loop e False v issues bs acts w = (Inr acts', w')" "distinct bs"
  shows "\<exists>rs evs. length rs = length bs \<and> trace w' = trace w @ evs \<and>
           commands evs = map2 SpawnCall bs rs \<and>
           (\<forall>(b, r) \<in> set (zip bs rs). map_of acts' b = Some (if r then ''spawned'' else ''spawn_failed''))"
  using assms
proof (induction bs arbitrary: acts w)
  case Nil
  then show ?case by simp
next
  case (Cons c bs)
  from spawn_loop_step[OF Cons.prems(1)] obtain x w1 evs r where
    s: "spawn_loop e False v issues bs (AList.update c x acts) w1 = (Inr acts', w')"
    and t: "trace w1 = trace w @ evs" "commands evs = [SpawnCall c r]"
    and x: "x = (if r then ''spawned'' else ''spawn_failed'')"
    by auto
  from Cons.prems(2) have d: "distinct bs" and c: "c \<notin> set bs" by simp_all
  from Cons.IH[OF s d] obtain rs evs' where
    l: "length rs = length bs" and t': "trace w' = trace w1 @ evs'"
    and k: "commands evs' = map2 SpawnCall bs rs"
    and m: "\<forall>(b, r) \<in> set (zip bs rs). map_of acts' b = Some (if r then ''spawned'' else ''spawn_failed'')"
    by blast
  have mc: "map_of acts' c = Some (if r then ''spawned'' else ''spawn_failed'')"
    using spawn_loop_others[OF s c] x by (simp add: update_conv')
  have "length (r # rs) = length (c # bs)" using l by simp
  moreover have "trace w' = trace w @ (evs @ evs')" using t t' by simp
  moreover have "commands (evs @ evs') = map2 SpawnCall (c # bs) (r # rs)" using t k by simp
  moreover have "\<forall>(b, r) \<in> set (zip (c # bs) (r # rs)). map_of acts' b = Some (if r then ''spawned'' else ''spawn_failed'')"
    using m mc by simp
  ultimately show ?case by blast
qed

lemma terminate_loop_go:
  "\<exists>x w1 evs. terminate_loop e d v (b # rest) acts w =
             terminate_loop e d v rest (AList.update b x acts) w1 \<and>
           trace w1 = trace w @ evs \<and> Print Changed \<notin> set evs \<and>
           (if d then x = ''would_terminate'' \<and> registry w1 = registry w \<and> commands evs = []
            else \<exists>r. x = (if r then ''terminated'' else ''terminate_failed'') \<and>
                     commands evs = [TerminateCall b r])"
proof -
  define res where "res = terminate_session e b (registry w)"
  define pr where "pr = (if v then [Print (Terminating b)] else [])"
  define x where "x = (if d then ''would_terminate'' else if fst res then ''terminated'' else ''terminate_failed'')"
  define evs where "evs = (if d then pr else pr @ [TerminateCall b (fst res)])"
  define w1 where "w1 = (if d then w\<lparr>trace := trace w @ evs\<rparr>
                         else w\<lparr>registry := snd res, trace := trace w @ evs\<rparr>)"
  have run: "terminate_loop e d v (b # rest) acts w =
             terminate_loop e d v rest (AList.update b x acts) w1"
    by (auto simp: Let_def emit_def res_def pr_def x_def w1_def evs_def split: if_splits prod.splits)
  have tr: "trace w1 = trace w @ evs" by (simp add: w1_def)
  have nc: "Print Changed \<notin> set evs" by (simp add: evs_def pr_def)
  have cm: "if d then x = ''would_terminate'' \<and> registry w1 = registry w \<and> commands evs = []
            else \<exists>r. x = (if r then ''terminated'' else ''terminate_failed'') \<and>
                     commands evs = [TerminateCall b r]"
    by (auto simp: x_def w1_def evs_def pr_def)
  from run tr nc cm show ?thesis by blast
qed

lemma terminate_loop_trace:
  "\<exists>evs. trace (snd (terminate_loop e d v bs acts w)) = trace w @ evs \<and> Print Changed \<notin> set evs"
proof (induction bs arbitrary: acts w)
  case Nil
  then show ?case by simp
next
  case (Cons b bs)
  from terminate_loop_go[of e d v b bs acts w] obtain x w1 evs where
    eq: "terminate_loop e d v (b # bs) acts w = terminate_loop e d v bs (AList.update b x acts) w1"
    and tr: "trace w1 = trace w @ evs" "Print Changed \<notin> set evs"
    by blast
  from Cons.IH[of "AList.update b x acts" w1] obtain evs' where
    "trace (snd (terminate_loop e d v bs (AList.update b x acts) w1)) = trace w1 @ evs'"
    "Print Changed \<notin> set evs'" by blast
  with eq tr have "trace (snd (terminate_loop e d v (b # bs) acts w)) = trace w @ (evs @ evs')"
    "Print Changed \<notin> set (evs @ evs')" by simp_all
  then show ?case by blast
qed

lemma terminate_loop_keys:
  "fst ` set (fst (terminate_loop e d v bs acts w)) = fst ` set acts \<union> set bs"
proof (induction bs arbitrary: acts w)
  case Nil
  then show ?case by simp
next
  case (Cons b bs)
  from terminate_loop_go[of e d v b bs acts w] obtain x w1 where
    "terminate_loop e d v (b # bs) acts w = terminate_loop e d v bs (AList.update b x acts) w1"
    by blast
  with Cons.IH[of "AList.update b x acts" w1] show ?case by (simp add: dom_update)
qed

lemma terminate_loop_others:
  assumes "b \<notin> set bs"
  shows "map_of (fst (terminate_loop e d v bs acts w)) b = map_of acts b"
  using assms
proof (induction bs arbitrary: acts w)
  case Nil
  then show ?case by simp
next
  case (Cons c bs)
  from terminate_loop_go[of e d v c bs acts w] obtain x w1 where
    "terminate_loop e d v (c # bs) acts w = terminate_loop e d v bs (AList.update c x acts) w1"
    by blast
  with Cons.IH[of "AList.update c x acts" w1] Cons.prems show ?case by (simp add: update_conv')
qed

lemma terminate_loop_dry:
  assumes "terminate_loop e True v bs acts w = (acts', w')"
  shows "registry w' = registry w \<and> (\<exists>evs. trace w' = trace w @ evs \<and> commands evs = []) \<and>
         (\<forall>b \<in> set bs. map_of acts' b = Some ''would_terminate'')"
  using assms
proof (induction bs arbitrary: acts w)
  case Nil
  then show ?case by simp
next
  case (Cons c bs)
  from terminate_loop_go[of e True v c bs acts w] Cons.prems obtain w1 evs where
    s: "terminate_loop e True v bs (AList.update c ''would_terminate'' acts) w1 = (acts', w')"
    and t: "trace w1 = trace w @ evs" "registry w1 = registry w" "commands evs = []"
    by auto
  from Cons.IH[OF s] obtain evs' where
    r: "registry w' = registry w1" and t': "trace w' = trace w1 @ evs'" "commands evs' = []"
    and m: "\<forall>b \<in> set bs. map_of acts' b = Some ''would_terminate''"
    by blast
  have "map_of acts' c = Some ''would_terminate''"
  proof (cases "c \<in> set bs")
    case True
    with m show ?thesis by blast
  next
    case False
    from terminate_loop_others[OF False, of e True v "AList.update c ''would_terminate'' acts" w1] s
    show ?thesis by (simp add: update_conv')
  qed
  moreover have "trace w' = trace w @ (evs @ evs')" "commands (evs @ evs') = []"
    using t t' by simp_all
  ultimately show ?case using r t(2) m by (metis set_ConsD)
qed

lemma terminate_loop_calls:
  assumes "terminate_loop e False v bs acts w = (acts', w')" "distinct bs"
  shows "\<exists>rs evs. length rs = length bs \<and> trace w' = trace w @ evs \<and>
           commands evs = map2 TerminateCall bs rs \<and>
           (\<forall>(b, r) \<in> set (zip bs rs). map_of acts' b = Some (if r then ''terminated'' else ''terminate_failed''))"
  using assms
proof (induction bs arbitrary: acts w)
  case Nil
  then show ?case by simp
next
  case (Cons c bs)
  from terminate_loop_go[of e False v c bs acts w] Cons.prems(1) obtain x w1 evs r where
    s: "terminate_loop e False v bs (AList.update c x acts) w1 = (acts', w')"
    and t: "trace w1 = trace w @ evs" "commands evs = [TerminateCall c r]"
    and x: "x = (if r then ''terminated'' else ''terminate_failed'')"
    by auto
  from Cons.prems(2) have d: "distinct bs" and c: "c \<notin> set bs" by simp_all
  from Cons.IH[OF s d] obtain rs evs' where
    l: "length rs = length bs" and t': "trace w' = trace w1 @ evs'"
    and k: "commands evs' = map2 TerminateCall bs rs"
    and m: "\<forall>(b, r) \<in> set (zip bs rs). map_of acts' b = Some (if r then ''terminated'' else ''terminate_failed'')"
    by blast
  have mc: "map_of acts' c = Some (if r then ''terminated'' else ''terminate_failed'')"
    using terminate_loop_others[OF c, of e False v "AList.update c x acts" w1] s x by (simp add: update_conv')
  have "length (r # rs) = length (c # bs)" using l by simp
  moreover have "trace w' = trace w @ (evs @ evs')" using t t' by simp
  moreover have "commands (evs @ evs') = map2 TerminateCall (c # bs) (r # rs)" using t k by simp
  moreover have "\<forall>(b, r) \<in> set (zip (c # bs) (r # rs)). map_of acts' b = Some (if r then ''terminated'' else ''terminate_failed'')"
    using m mc by simp
  ultimately show ?case by blast
qed

section \<open>Properties of a pass\<close>

lemma order_ok_set: "order_ok e \<Longrightarrow> set (set_order e xs) = set xs"
  unfolding order_ok_def by (metis set_mset_mset)

lemma order_ok_distinct: "order_ok e \<Longrightarrow> distinct (set_order e xs) = distinct xs"
  unfolding order_ok_def by (metis mset_eq_imp_distinct_iff)

lemma need_spawn_set:
  "order_ok e \<Longrightarrow> set (need_spawn e ip live) = set ip - set live"
  by (auto simp: need_spawn_def order_ok_set)

lemma need_terminate_set:
  "order_ok e \<Longrightarrow> set (need_terminate e live cl) = set live \<inter> set cl"
  by (auto simp: need_terminate_def order_ok_set)

lemma need_spawn_distinct: "order_ok e \<Longrightarrow> distinct (need_spawn e ip live)"
  by (simp add: need_spawn_def order_ok_distinct)

lemma need_terminate_distinct: "order_ok e \<Longrightarrow> distinct (need_terminate e live cl)"
  by (simp add: need_terminate_def order_ok_distinct)

lemma load_issues_distinct:
  assumes "load_issues loads f = (Inr issues, printed)"
  shows "distinct (map fst issues)"
proof (cases f)
  case (Lines items)
  with assms have "load_lines loads items [] = (Inr issues, printed)" by (simp add: load_issues_def)
  from load_lines_distinct[OF this] show ?thesis by simp
qed (use assms in \<open>auto simp: load_issues_def\<close>)

lemma load_lines_printed:
  "set (snd (load_lines loads items acc)) \<subseteq> {ErrorReading}"
proof (induction loads items acc rule: load_lines.induct)
  case (3 loads l rest issues)
  then show ?case by (auto simp: Let_def split: option.splits decoded.splits json.splits)
qed simp_all

lemma load_issues_printed: "Changed \<notin> set (snd (load_issues loads f))"
proof (cases f)
  case (Lines items)
  then show ?thesis using load_lines_printed[of loads items "[]"] by (auto simp: load_issues_def)
qed (simp_all add: load_issues_def)

text \<open>A pass whose load and classification succeed, as the run of its two loops.\<close>

lemma sync_sessions_unfold:
  assumes "load_issues (json_loads e) f = (Inr issues, printed)"
    and "get_closed_beads issues = Inr closed_ids"
  shows "sync_sessions e d v f w =
     (case spawn_loop e d v issues
             (need_spawn e (get_in_progress_beads issues) (list_sessions e (registry w))) []
             (w\<lparr>trace := trace w @ map Print printed @ [ListCall]\<rparr>) of
        (Inl err, w2) \<Rightarrow> (Inl err, w2)
      | (Inr acts, w2) \<Rightarrow>
          (case terminate_loop e d v
                  (need_terminate e (list_sessions e (registry w)) closed_ids) acts w2 of
             (acts', w3) \<Rightarrow> (Inr acts', w3)))"
  using assms
  by (simp add: sync_sessions_def Let_def emit_def AUTO_SPAWN_ENABLED_def AUTO_TERMINATE_ENABLED_def
      split: prod.splits sum.splits)

lemma sync_sessions_trace:
  "\<exists>evs. trace (snd (sync_sessions e d v f w)) = trace w @ evs \<and> Print Changed \<notin> set evs"
proof -
  obtain r printed where ld: "load_issues (json_loads e) f = (r, printed)"
    by (cases "load_issues (json_loads e) f")
  have np: "Print Changed \<notin> set (map Print printed)"
    using load_issues_printed[of "json_loads e" f] ld by auto
  show ?thesis
  proof (cases r)
    case (Inl err)
    with ld np show ?thesis by (simp add: sync_sessions_def)
  next
    case (Inr issues)
    note iss = this
    show ?thesis
    proof (cases "get_closed_beads issues")
      case (Inl err)
      with ld iss np show ?thesis by (simp add: sync_sessions_def)
    next
      case (Inr closed_ids)
      define w1 where "w1 = w\<lparr>trace := trace w @ map Print printed @ [ListCall]\<rparr>"
      define ns where "ns = need_spawn e (get_in_progress_beads issues) (list_sessions e (registry w))"
      define nt where "nt = need_terminate e (list_sessions e (registry w)) closed_ids"
      have un: "sync_sessions e d v f w =
        (case spawn_loop e d v issues ns [] w1 of
           (Inl err, w2) \<Rightarrow> (Inl err, w2)
         | (Inr acts, w2) \<Rightarrow> (case terminate_loop e d v nt acts w2 of (acts', w3) \<Rightarrow> (Inr acts', w3)))"
        unfolding w1_def ns_def nt_def by (rule sync_sessions_unfold[OF ld[unfolded iss] Inr])
      obtain r2 w2 where sp: "spawn_loop e d v issues ns [] w1 = (r2, w2)"
        by (cases "spawn_loop e d v issues ns [] w1")
      from spawn_loop_trace[of e d v issues ns "[]" w1] sp obtain evs where
        e1: "trace w2 = trace w1 @ evs" "Print Changed \<notin> set evs" by auto
      have t1: "trace w1 = trace w @ (map Print printed @ [ListCall])" by (simp add: w1_def)
      show ?thesis
      proof (cases r2)
        case (Inl err)
        with un sp have "snd (sync_sessions e d v f w) = w2" by simp
        moreover have "trace w2 = trace w @ ((map Print printed @ [ListCall]) @ evs)"
          using e1 t1 by simp
        moreover have "Print Changed \<notin> set ((map Print printed @ [ListCall]) @ evs)"
          using e1 np by simp
        ultimately show ?thesis by metis
      next
        case (Inr acts)
        obtain acts' w3 where tm: "terminate_loop e d v nt acts w2 = (acts', w3)"
          by (cases "terminate_loop e d v nt acts w2")
        from terminate_loop_trace[of e d v nt acts w2] tm obtain evs' where
          e2: "trace w3 = trace w2 @ evs'" "Print Changed \<notin> set evs'" by auto
        from un sp Inr tm have "snd (sync_sessions e d v f w) = w3" by simp
        moreover have "trace w3 = trace w @ ((map Print printed @ [ListCall]) @ evs @ evs')"
          using e1 e2 t1 by simp
        moreover have "Print Changed \<notin> set ((map Print printed @ [ListCall]) @ evs @ evs')"
          using e1 e2 np by simp
        ultimately show ?thesis by metis
      qed
    qed
  qed
qed

lemma commands_map_Print [simp]: "commands (map Print ns) = []"
  by (induction ns) simp_all

lemma sync_sessions_run:
  assumes ok: "order_ok e"
    and ld: "load_issues (json_loads e) f = (Inr issues, printed)"
    and cl: "get_closed_beads issues = Inr closed_ids"
    and ti: "v \<longrightarrow> (\<forall>b \<in> set (get_in_progress_beads issues) - set (list_sessions e (registry w)).
                 \<exists>t. slice50 (bead_title issues b) = Inr t)"
  shows "\<exists>acts0 w2 acts w3.
     spawn_loop e d v issues
        (need_spawn e (get_in_progress_beads issues) (list_sessions e (registry w))) []
        (w\<lparr>trace := trace w @ map Print printed @ [ListCall]\<rparr>) = (Inr acts0, w2) \<and>
     terminate_loop e d v (need_terminate e (list_sessions e (registry w)) closed_ids) acts0 w2 = (acts, w3) \<and>
     sync_sessions e d v f w = (Inr acts, w3)"
proof -
  define ns where "ns = need_spawn e (get_in_progress_beads issues) (list_sessions e (registry w))"
  define nt where "nt = need_terminate e (list_sessions e (registry w)) closed_ids"
  define w1 where "w1 = w\<lparr>trace := trace w @ map Print printed @ [ListCall]\<rparr>"
  have "v \<longrightarrow> (\<forall>b \<in> set ns. \<exists>t. slice50 (bead_title issues b) = Inr t)"
    using ti need_spawn_set[OF ok] by (simp add: ns_def)
  from spawn_loop_total[OF this, of e d "[]" w1] obtain acts0 w2 where
    sp: "spawn_loop e d v issues ns [] w1 = (Inr acts0, w2)" by blast
  obtain acts w3 where tm: "terminate_loop e d v nt acts0 w2 = (acts, w3)"
    by (cases "terminate_loop e d v nt acts0 w2")
  have "sync_sessions e d v f w = (Inr acts, w3)"
    using sync_sessions_unfold[OF ld cl, of d v w] sp tm by (simp add: ns_def nt_def w1_def)
  with sp tm show ?thesis unfolding ns_def nt_def w1_def by blast
qed

lemma sample_order_ok: "order_ok (sample_env refused)"
  by (simp add: order_ok_def sample_env_def)

lemma sample_load: "load_issues (json_loads (sample_env refused)) sample_file = (Inr sample_snapshot, [])"
  by (simp add: sample_defs sample_snapshot_def)

lemma sample_closed: "get_closed_beads sample_snapshot = Inr [KStr ''W3'']"
  by (simp add: sample_snapshot_def in_closed_statuses_def closed_statuses_def dict_get_def)

lemma sample_in_progress: "get_in_progress_beads sample_snapshot = [KStr ''W1'', KStr ''W2'']"
  by (simp add: sample_snapshot_def get_in_progress_beads_def dict_get_def)

lemma sample_live: "list_sessions (sample_env refused) (registry (sample_world live)) = live"
  by (simp add: sample_env_def sample_world_def)

lemma sample_titles:
  "slice50 (bead_title sample_snapshot (KStr ''W1'')) = Inr (JStr ''Unknown'')"
  "slice50 (bead_title sample_snapshot (KStr ''W2'')) = Inr (JStr ''Second'')"
  by (simp_all add: sample_snapshot_def bead_title_def dict_get_def)

section \<open>Claims about a pass\<close>

text \<open>
  C1. Idempotence. When every in-progress id already has a live session and no live session
  belongs to a closed id, a pass returns the empty action record; it only lists the sessions
  and leaves the session manager as it was.
\<close>

theorem sync_idempotent:
  assumes "order_ok e"
    and "load_issues (json_loads e) f = (Inr issues, printed)"
    and "get_closed_beads issues = Inr closed_ids"
    and "set (get_in_progress_beads issues) \<subseteq> set (list_sessions e (registry w))"
    and "set (list_sessions e (registry w)) \<inter> set closed_ids = {}"
  shows "sync_sessions e dry_run verbose f w =
           (Inr [], w\<lparr>trace := trace w @ map Print printed @ [ListCall]\<rparr>)"
proof -
  have "set (need_spawn e (get_in_progress_beads issues) (list_sessions e (registry w))) = {}"
    using need_spawn_set[OF assms(1)] assms(4) by auto
  then have ns: "need_spawn e (get_in_progress_beads issues) (list_sessions e (registry w)) = []"
    by simp
  have "set (need_terminate e (list_sessions e (registry w)) closed_ids) = {}"
    using need_terminate_set[OF assms(1)] assms(5) by auto
  then have nt: "need_terminate e (list_sessions e (registry w)) closed_ids = []"
    by simp
  show ?thesis
    using sync_sessions_unfold[OF assms(2,3), of dry_run verbose w] by (simp add: ns nt)
qed

text \<open>C1, at the sample file with sessions live for W1 and W2 and none for the closed W3.\<close>

theorem sync_idempotent_witness:
  "order_ok (sample_env []) \<and>
   load_issues (json_loads (sample_env [])) sample_file = (Inr sample_snapshot, []) \<and>
   get_closed_beads sample_snapshot = Inr [KStr ''W3''] \<and>
   set (get_in_progress_beads sample_snapshot) \<subseteq>
     set (list_sessions (sample_env []) (registry (sample_world [KStr ''W1'', KStr ''W2'']))) \<and>
   set (list_sessions (sample_env []) (registry (sample_world [KStr ''W1'', KStr ''W2'']))) \<inter> set [KStr ''W3''] = {} \<and>
   sync_sessions (sample_env []) False True sample_file (sample_world [KStr ''W1'', KStr ''W2'']) =
     (Inr [], \<lparr>registry = [KStr ''W1'', KStr ''W2''], trace = [ListCall]\<rparr>)"
proof -
  have h4: "set (get_in_progress_beads sample_snapshot) \<subseteq>
     set (list_sessions (sample_env []) (registry (sample_world [KStr ''W1'', KStr ''W2''])))"
    by (simp add: sample_in_progress sample_live)
  have h5: "set (list_sessions (sample_env []) (registry (sample_world [KStr ''W1'', KStr ''W2'']))) \<inter> set [KStr ''W3''] = {}"
    by (simp add: sample_live)
  have "sync_sessions (sample_env []) False True sample_file (sample_world [KStr ''W1'', KStr ''W2'']) =
     (Inr [], \<lparr>registry = [KStr ''W1'', KStr ''W2''], trace = [ListCall]\<rparr>)"
    using sync_idempotent[OF sample_order_ok sample_load sample_closed h4 h5, of False True]
    by (simp add: sample_world_def)
  with sample_order_ok sample_load sample_closed h4 h5 show ?thesis by blast
qed

text \<open>
  C2. The action sets. For a snapshot that loads and classifies (every status can be hashed)
  and whose titles can be shown when the pass is verbose, a pass returns an action record
  whose keys are exactly the in-progress ids without a live session together with the live
  ids that are closed; each id of the first kind carries a spawn outcome, each id of the
  second kind a terminate outcome.
\<close>

theorem sync_action_sets:
  assumes ok: "order_ok e"
    and ld: "load_issues (json_loads e) f = (Inr issues, printed)"
    and cl: "get_closed_beads issues = Inr closed_ids"
    and ti: "verbose \<longrightarrow> (\<forall>b \<in> set (get_in_progress_beads issues) - set (list_sessions e (registry w)).
                 \<exists>t. slice50 (bead_title issues b) = Inr t)"
  shows "\<exists>acts w'. sync_sessions e dry_run verbose f w = (Inr acts, w') \<and>
     fst ` set acts = (set (get_in_progress_beads issues) - set (list_sessions e (registry w))) \<union>
                      (set (list_sessions e (registry w)) \<inter> set closed_ids) \<and>
     (\<forall>b \<in> set (get_in_progress_beads issues) - set (list_sessions e (registry w)).
        map_of acts b \<in> {Some ''spawned'', Some ''spawn_failed'', Some ''would_spawn''}) \<and>
     (\<forall>b \<in> set (list_sessions e (registry w)) \<inter> set closed_ids.
        map_of acts b \<in> {Some ''terminated'', Some ''terminate_failed'', Some ''would_terminate''})"
proof -
  define ns where "ns = need_spawn e (get_in_progress_beads issues) (list_sessions e (registry w))"
  define nt where "nt = need_terminate e (list_sessions e (registry w)) closed_ids"
  define w1 where "w1 = w\<lparr>trace := trace w @ map Print printed @ [ListCall]\<rparr>"
  have sns: "set ns = set (get_in_progress_beads issues) - set (list_sessions e (registry w))"
    unfolding ns_def by (rule need_spawn_set[OF ok])
  have snt: "set nt = set (list_sessions e (registry w)) \<inter> set closed_ids"
    unfolding nt_def by (rule need_terminate_set[OF ok])
  from sync_sessions_run[OF ok ld cl ti, of dry_run] obtain acts0 w2 acts w3 where
    sp: "spawn_loop e dry_run verbose issues ns [] w1 = (Inr acts0, w2)"
    and tm: "terminate_loop e dry_run verbose nt acts0 w2 = (acts, w3)"
    and sy: "sync_sessions e dry_run verbose f w = (Inr acts, w3)"
    unfolding ns_def nt_def w1_def by blast
  have k0: "fst ` set acts0 = set ns" using spawn_loop_keys[OF sp] by simp
  have k: "fst ` set acts = set ns \<union> set nt"
    using terminate_loop_keys[of e dry_run verbose nt acts0 w2] tm k0 by simp
  have spawn_kind: "map_of acts b \<in> {Some ''spawned'', Some ''spawn_failed'', Some ''would_spawn''}"
    if b: "b \<in> set ns" for b
  proof -
    have "b \<notin> set nt" using b sns snt by auto
    then have same: "map_of acts b = map_of acts0 b"
      using terminate_loop_others[of b nt e dry_run verbose acts0 w2] tm by simp
    show ?thesis
    proof (cases dry_run)
      case True
      with sp spawn_loop_dry[of e verbose issues ns "[]" w1 acts0 w2] b same show ?thesis by simp
    next
      case False
      with sp have sp': "spawn_loop e False verbose issues ns [] w1 = (Inr acts0, w2)" by simp
      have dn: "distinct ns" unfolding ns_def by (rule need_spawn_distinct[OF ok])
      from spawn_loop_calls[OF sp' dn] obtain rs where
        l: "length rs = length ns"
        and m: "\<forall>(b, r) \<in> set (zip ns rs). map_of acts0 b = Some (if r then ''spawned'' else ''spawn_failed'')"
        by blast
      from b l obtain r where "(b, r) \<in> set (zip ns rs)"
        by (metis in_set_impl_in_set_zip1)
      with m same show ?thesis by (cases r) auto
    qed
  qed
  have term_kind: "map_of acts b \<in> {Some ''terminated'', Some ''terminate_failed'', Some ''would_terminate''}"
    if b: "b \<in> set nt" for b
  proof (cases dry_run)
    case True
    with tm terminate_loop_dry[of e verbose nt acts0 w2 acts w3] b show ?thesis by simp
  next
    case False
    with tm have tm': "terminate_loop e False verbose nt acts0 w2 = (acts, w3)" by simp
    have dn: "distinct nt" unfolding nt_def by (rule need_terminate_distinct[OF ok])
    from terminate_loop_calls[OF tm' dn] obtain rs where
      l: "length rs = length nt"
      and m: "\<forall>(b, r) \<in> set (zip nt rs). map_of acts b = Some (if r then ''terminated'' else ''terminate_failed'')"
      by blast
    from b l obtain r where "(b, r) \<in> set (zip nt rs)"
      by (metis in_set_impl_in_set_zip1)
    with m show ?thesis by (cases r) auto
  qed
  from sy k spawn_kind term_kind show ?thesis unfolding sns snt by blast
qed

lemma sample_titles_ok:
  "verbose \<longrightarrow> (\<forall>b \<in> set (get_in_progress_beads sample_snapshot) -
        set (list_sessions (sample_env refused) (registry (sample_world [KStr ''W3'']))).
      \<exists>t. slice50 (bead_title sample_snapshot b) = Inr t)"
  by (simp add: sample_in_progress sample_live sample_titles)

lemma sample_to_spawn:
  "set (get_in_progress_beads sample_snapshot) -
     set (list_sessions (sample_env refused) (registry (sample_world [KStr ''W3'']))) =
     {KStr ''W1'', KStr ''W2''}"
  by (auto simp: sample_in_progress sample_live)

text \<open>C2, at the sample file with one live session, for the closed W3; W1 and W2 are in progress.\<close>

theorem sync_action_sets_witness:
  "order_ok (sample_env [KStr ''W1'']) \<and>
   load_issues (json_loads (sample_env [KStr ''W1''])) sample_file = (Inr sample_snapshot, []) \<and>
   get_closed_beads sample_snapshot = Inr [KStr ''W3''] \<and>
   set (get_in_progress_beads sample_snapshot) -
     set (list_sessions (sample_env [KStr ''W1'']) (registry (sample_world [KStr ''W3'']))) =
     {KStr ''W1'', KStr ''W2''} \<and>
   slice50 (bead_title sample_snapshot (KStr ''W1'')) = Inr (JStr ''Unknown'') \<and>
   slice50 (bead_title sample_snapshot (KStr ''W2'')) = Inr (JStr ''Second'') \<and>
   (\<exists>acts w'. sync_sessions (sample_env [KStr ''W1'']) False True sample_file (sample_world [KStr ''W3'']) = (Inr acts, w') \<and>
      fst ` set acts = {KStr ''W1'', KStr ''W2'', KStr ''W3''})"
proof -
  note h = sample_order_ok[of "[KStr ''W1'']"] sample_load[of "[KStr ''W1'']"] sample_closed
    sample_titles_ok[of True "[KStr ''W1'']"]
  from sync_action_sets[OF h, of False] obtain acts w' where
    "sync_sessions (sample_env [KStr ''W1'']) False True sample_file (sample_world [KStr ''W3'']) = (Inr acts, w')"
    and "fst ` set acts = (set (get_in_progress_beads sample_snapshot) -
            set (list_sessions (sample_env [KStr ''W1'']) (registry (sample_world [KStr ''W3''])))) \<union>
          (set (list_sessions (sample_env [KStr ''W1'']) (registry (sample_world [KStr ''W3'']))) \<inter> set [KStr ''W3''])"
    by blast
  moreover from this(2) have "fst ` set acts = {KStr ''W1'', KStr ''W2'', KStr ''W3''}"
    by (auto simp: sample_in_progress sample_live)
  ultimately have "\<exists>acts w'. sync_sessions (sample_env [KStr ''W1'']) False True sample_file (sample_world [KStr ''W3'']) = (Inr acts, w') \<and>
      fst ` set acts = {KStr ''W1'', KStr ''W2'', KStr ''W3''}"
    by blast
  then show ?thesis
    by (intro conjI h(1) h(2) h(3) sample_to_spawn sample_titles)
qed

text \<open>
  C3. Disjointness. No id of a loaded snapshot is both in progress and closed, and the ids to
  spawn and the ids to terminate never meet, whatever the live sessions are.
\<close>

theorem action_sets_disjoint:
  assumes "order_ok e"
    and "load_issues loads f = (Inr issues, printed)"
    and "get_closed_beads issues = Inr closed_ids"
  shows "set (get_in_progress_beads issues) \<inter> set closed_ids = {} \<and>
         set (need_spawn e (get_in_progress_beads issues) live) \<inter>
           set (need_terminate e live closed_ids) = {}"
proof
  show "set (get_in_progress_beads issues) \<inter> set closed_ids = {}"
    using classes_disjoint[OF load_issues_distinct[OF assms(2)] assms(3)] .
  show "set (need_spawn e (get_in_progress_beads issues) live) \<inter>
           set (need_terminate e live closed_ids) = {}"
    unfolding need_spawn_set[OF assms(1)] need_terminate_set[OF assms(1)] by blast
qed

text \<open>C3, at the sample file with a live session for W3.\<close>

theorem action_sets_disjoint_witness:
  "order_ok (sample_env []) \<and>
   load_issues (json_loads (sample_env [])) sample_file = (Inr sample_snapshot, []) \<and>
   get_closed_beads sample_snapshot = Inr [KStr ''W3''] \<and>
   set (get_in_progress_beads sample_snapshot) \<inter> set [KStr ''W3''] = {} \<and>
   set (need_spawn (sample_env []) (get_in_progress_beads sample_snapshot) [KStr ''W3'']) \<inter>
     set (need_terminate (sample_env []) [KStr ''W3''] [KStr ''W3'']) = {}"
  using action_sets_disjoint[OF sample_order_ok[of "[]"] sample_load[of "[]"] sample_closed, of "[KStr ''W3'']"]
    sample_order_ok[of "[]"] sample_load[of "[]"] sample_closed
  by blast

lemma sample_need_spawn:
  "need_spawn (sample_env refused) (get_in_progress_beads sample_snapshot)
     (list_sessions (sample_env refused) (registry (sample_world [KStr ''W3'']))) = [KStr ''W1'', KStr ''W2'']"
  by (simp add: need_spawn_def sample_in_progress sample_live) (simp add: sample_env_def)

lemma sample_need_terminate:
  "need_terminate (sample_env refused)
     (list_sessions (sample_env refused) (registry (sample_world [KStr ''W3'']))) [KStr ''W3''] = [KStr ''W3'']"
  by (simp add: need_terminate_def sample_live) (simp add: sample_env_def)

lemma sample_pass:
  "sync_sessions (sample_env [KStr ''W1'']) False True sample_file (sample_world [KStr ''W3'']) =
     (Inr [(KStr ''W1'', ''spawn_failed''), (KStr ''W2'', ''spawned''), (KStr ''W3'', ''terminated'')],
      \<lparr>registry = [KStr ''W2''],
         trace = [ListCall,
                  Print (Spawning (KStr ''W1'') (JStr ''Unknown'')), SpawnCall (KStr ''W1'') False,
                  Print (Spawning (KStr ''W2'') (JStr ''Second'')), SpawnCall (KStr ''W2'') True,
                  Print (Terminating (KStr ''W3'')), TerminateCall (KStr ''W3'') True]\<rparr>)"
  unfolding sync_sessions_unfold[OF sample_load sample_closed] sample_need_spawn sample_need_terminate
  by (simp add: sample_titles sample_env_def sample_world_def emit_def)

lemma sample_dry_pass:
  "sync_sessions (sample_env [KStr ''W1'']) True True sample_file (sample_world [KStr ''W3'']) =
     (Inr [(KStr ''W1'', ''would_spawn''), (KStr ''W2'', ''would_spawn''), (KStr ''W3'', ''would_terminate'')],
      \<lparr>registry = [KStr ''W3''],
         trace = [ListCall,
                  Print (Spawning (KStr ''W1'') (JStr ''Unknown'')),
                  Print (Spawning (KStr ''W2'') (JStr ''Second'')),
                  Print (Terminating (KStr ''W3''))]\<rparr>)"
  unfolding sync_sessions_unfold[OF sample_load sample_closed] sample_need_spawn sample_need_terminate
  by (simp add: sample_titles sample_env_def sample_world_def emit_def)

text \<open>
  C4. Dry run. With \<^verbatim>\<open>dry_run\<close> set, a pass makes no spawn and no terminate call and leaves
  the session manager's state as it was; it still returns the whole action record, with
  \<^verbatim>\<open>would_spawn\<close> for every id to spawn and \<^verbatim>\<open>would_terminate\<close> for every id to terminate, on
  the same keys as the pass that acts.
\<close>

theorem dry_run_pure:
  assumes ok: "order_ok e"
    and ld: "load_issues (json_loads e) f = (Inr issues, printed)"
    and cl: "get_closed_beads issues = Inr closed_ids"
    and ti: "verbose \<longrightarrow> (\<forall>b \<in> set (get_in_progress_beads issues) - set (list_sessions e (registry w)).
                 \<exists>t. slice50 (bead_title issues b) = Inr t)"
  shows "\<exists>acts w' evs. sync_sessions e True verbose f w = (Inr acts, w') \<and>
     registry w' = registry w \<and> trace w' = trace w @ evs \<and> commands evs = [] \<and>
     fst ` set acts = (set (get_in_progress_beads issues) - set (list_sessions e (registry w))) \<union>
                      (set (list_sessions e (registry w)) \<inter> set closed_ids) \<and>
     (\<forall>b \<in> set (get_in_progress_beads issues) - set (list_sessions e (registry w)).
        map_of acts b = Some ''would_spawn'') \<and>
     (\<forall>b \<in> set (list_sessions e (registry w)) \<inter> set closed_ids.
        map_of acts b = Some ''would_terminate'') \<and>
     (\<exists>acts2 w2. sync_sessions e False verbose f w = (Inr acts2, w2) \<and>
        fst ` set acts2 = fst ` set acts)"
proof -
  define ns where "ns = need_spawn e (get_in_progress_beads issues) (list_sessions e (registry w))"
  define nt where "nt = need_terminate e (list_sessions e (registry w)) closed_ids"
  define w1 where "w1 = w\<lparr>trace := trace w @ map Print printed @ [ListCall]\<rparr>"
  have sns: "set ns = set (get_in_progress_beads issues) - set (list_sessions e (registry w))"
    unfolding ns_def by (rule need_spawn_set[OF ok])
  have snt: "set nt = set (list_sessions e (registry w)) \<inter> set closed_ids"
    unfolding nt_def by (rule need_terminate_set[OF ok])
  from sync_sessions_run[OF ok ld cl ti, of True] obtain acts0 w2 acts w3 where
    sp: "spawn_loop e True verbose issues ns [] w1 = (Inr acts0, w2)"
    and tm: "terminate_loop e True verbose nt acts0 w2 = (acts, w3)"
    and sy: "sync_sessions e True verbose f w = (Inr acts, w3)"
    unfolding ns_def nt_def w1_def by blast
  from spawn_loop_dry[OF sp] obtain evs where
    r2: "registry w2 = registry w1" and t2: "trace w2 = trace w1 @ evs" "commands evs = []"
    and m0: "\<forall>b \<in> set ns. map_of acts0 b = Some ''would_spawn''" by blast
  from terminate_loop_dry[OF tm] obtain evs' where
    r3: "registry w3 = registry w2" and t3: "trace w3 = trace w2 @ evs'" "commands evs' = []"
    and m1: "\<forall>b \<in> set nt. map_of acts b = Some ''would_terminate''" by blast
  have reg: "registry w3 = registry w" using r2 r3 by (simp add: w1_def)
  have tr: "trace w3 = trace w @ ((map Print printed @ [ListCall]) @ evs @ evs')"
    using t2 t3 by (simp add: w1_def)
  have cm: "commands ((map Print printed @ [ListCall]) @ evs @ evs') = []"
    using t2 t3 by simp
  have k: "fst ` set acts = set ns \<union> set nt"
    using terminate_loop_keys[of e True verbose nt acts0 w2] tm spawn_loop_keys[OF sp] by simp
  have m0': "\<forall>b \<in> set ns. map_of acts b = Some ''would_spawn''"
  proof
    fix b assume b: "b \<in> set ns"
    then have "b \<notin> set nt" using sns snt by auto
    then have "map_of acts b = map_of acts0 b"
      using terminate_loop_others[of b nt e True verbose acts0 w2] tm by simp
    with m0 b show "map_of acts b = Some ''would_spawn''" by simp
  qed
  from sync_sessions_run[OF ok ld cl ti, of False] obtain bacts0 bw2 bacts bw3 where
    bsp: "spawn_loop e False verbose issues ns [] w1 = (Inr bacts0, bw2)"
    and btm: "terminate_loop e False verbose nt bacts0 bw2 = (bacts, bw3)"
    and bsy: "sync_sessions e False verbose f w = (Inr bacts, bw3)"
    unfolding ns_def nt_def w1_def by blast
  have bk: "fst ` set bacts = set ns \<union> set nt"
    using terminate_loop_keys[of e False verbose nt bacts0 bw2] btm spawn_loop_keys[OF bsp] by simp
  have other: "\<exists>acts2 w2. sync_sessions e False verbose f w = (Inr acts2, w2) \<and>
        fst ` set acts2 = fst ` set acts"
    using bsy bk k by simp
  from sy reg tr cm k m0' m1 other show ?thesis unfolding sns snt by blast
qed

text \<open>C4, at the sample file with a live session for W3.\<close>

theorem dry_run_pure_witness:
  "order_ok (sample_env [KStr ''W1'']) \<and>
   load_issues (json_loads (sample_env [KStr ''W1''])) sample_file = (Inr sample_snapshot, []) \<and>
   get_closed_beads sample_snapshot = Inr [KStr ''W3''] \<and>
   set (get_in_progress_beads sample_snapshot) -
     set (list_sessions (sample_env [KStr ''W1'']) (registry (sample_world [KStr ''W3'']))) =
     {KStr ''W1'', KStr ''W2''} \<and>
   slice50 (bead_title sample_snapshot (KStr ''W1'')) = Inr (JStr ''Unknown'') \<and>
   slice50 (bead_title sample_snapshot (KStr ''W2'')) = Inr (JStr ''Second'') \<and>
   (\<exists>acts w' evs. sync_sessions (sample_env [KStr ''W1'']) True True sample_file (sample_world [KStr ''W3'']) = (Inr acts, w') \<and>
     registry w' = registry (sample_world [KStr ''W3'']) \<and> trace w' = trace (sample_world [KStr ''W3'']) @ evs \<and> commands evs = [] \<and>
     fst ` set acts = (set (get_in_progress_beads sample_snapshot) - set (list_sessions (sample_env [KStr ''W1'']) (registry (sample_world [KStr ''W3''])))) \<union>
                      (set (list_sessions (sample_env [KStr ''W1'']) (registry (sample_world [KStr ''W3'']))) \<inter> set [KStr ''W3'']) \<and>
     (\<forall>b \<in> set (get_in_progress_beads sample_snapshot) - set (list_sessions (sample_env [KStr ''W1'']) (registry (sample_world [KStr ''W3'']))).
        map_of acts b = Some ''would_spawn'') \<and>
     (\<forall>b \<in> set (list_sessions (sample_env [KStr ''W1'']) (registry (sample_world [KStr ''W3'']))) \<inter> set [KStr ''W3''].
        map_of acts b = Some ''would_terminate'') \<and>
     (\<exists>acts2 w2. sync_sessions (sample_env [KStr ''W1'']) False True sample_file (sample_world [KStr ''W3'']) = (Inr acts2, w2) \<and>
        fst ` set acts2 = fst ` set acts)) \<and>
   sync_sessions (sample_env [KStr ''W1'']) True True sample_file (sample_world [KStr ''W3'']) =
     (Inr [(KStr ''W1'', ''would_spawn''), (KStr ''W2'', ''would_spawn''), (KStr ''W3'', ''would_terminate'')],
      \<lparr>registry = [KStr ''W3''],
         trace = [ListCall,
                  Print (Spawning (KStr ''W1'') (JStr ''Unknown'')),
                  Print (Spawning (KStr ''W2'') (JStr ''Second'')),
                  Print (Terminating (KStr ''W3''))]\<rparr>)"
proof (intro conjI)
  note h = sample_order_ok[of "[KStr ''W1'']"] sample_load[of "[KStr ''W1'']"] sample_closed
    sample_titles_ok[of True "[KStr ''W1'']"]
  show "order_ok (sample_env [KStr ''W1''])" by (rule h(1))
  show "load_issues (json_loads (sample_env [KStr ''W1''])) sample_file = (Inr sample_snapshot, [])"
    by (rule h(2))
  show "get_closed_beads sample_snapshot = Inr [KStr ''W3'']" by (rule h(3))
  show "set (get_in_progress_beads sample_snapshot) -
     set (list_sessions (sample_env [KStr ''W1'']) (registry (sample_world [KStr ''W3'']))) =
     {KStr ''W1'', KStr ''W2''}" by (rule sample_to_spawn)
  show "slice50 (bead_title sample_snapshot (KStr ''W1'')) = Inr (JStr ''Unknown'')"
    by (rule sample_titles(1))
  show "slice50 (bead_title sample_snapshot (KStr ''W2'')) = Inr (JStr ''Second'')"
    by (rule sample_titles(2))
  show "\<exists>acts w' evs. sync_sessions (sample_env [KStr ''W1'']) True True sample_file (sample_world [KStr ''W3'']) = (Inr acts, w') \<and>
     registry w' = registry (sample_world [KStr ''W3'']) \<and> trace w' = trace (sample_world [KStr ''W3'']) @ evs \<and> commands evs = [] \<and>
     fst ` set acts = (set (get_in_progress_beads sample_snapshot) - set (list_sessions (sample_env [KStr ''W1'']) (registry (sample_world [KStr ''W3''])))) \<union>
                      (set (list_sessions (sample_env [KStr ''W1'']) (registry (sample_world [KStr ''W3'']))) \<inter> set [KStr ''W3'']) \<and>
     (\<forall>b \<in> set (get_in_progress_beads sample_snapshot) - set (list_sessions (sample_env [KStr ''W1'']) (registry (sample_world [KStr ''W3'']))).
        map_of acts b = Some ''would_spawn'') \<and>
     (\<forall>b \<in> set (list_sessions (sample_env [KStr ''W1'']) (registry (sample_world [KStr ''W3'']))) \<inter> set [KStr ''W3''].
        map_of acts b = Some ''would_terminate'') \<and>
     (\<exists>acts2 w2. sync_sessions (sample_env [KStr ''W1'']) False True sample_file (sample_world [KStr ''W3'']) = (Inr acts2, w2) \<and>
        fst ` set acts2 = fst ` set acts)"
    by (rule dry_run_pure[OF h])
  show "sync_sessions (sample_env [KStr ''W1'']) True True sample_file (sample_world [KStr ''W3'']) =
     (Inr [(KStr ''W1'', ''would_spawn''), (KStr ''W2'', ''would_spawn''), (KStr ''W3'', ''would_terminate'')],
      \<lparr>registry = [KStr ''W3''],
         trace = [ListCall,
                  Print (Spawning (KStr ''W1'') (JStr ''Unknown'')),
                  Print (Spawning (KStr ''W2'') (JStr ''Second'')),
                  Print (Terminating (KStr ''W3''))]\<rparr>)"
    by (rule sample_dry_pass)
qed

text \<open>
  C5. Partial failure. A pass that acts calls \<^verbatim>\<open>spawn_session\<close> once for every id to spawn
  and \<^verbatim>\<open>terminate_session\<close> once for every id to terminate, in the order of the two loops,
  whatever the earlier calls returned; the outcome recorded for an id is the failed one when
  its call reported failure and the successful one otherwise.
\<close>

theorem partial_failure_continues:
  assumes ok: "order_ok e"
    and ld: "load_issues (json_loads e) f = (Inr issues, printed)"
    and cl: "get_closed_beads issues = Inr closed_ids"
    and ti: "verbose \<longrightarrow> (\<forall>b \<in> set (get_in_progress_beads issues) - set (list_sessions e (registry w)).
                 \<exists>t. slice50 (bead_title issues b) = Inr t)"
  shows "\<exists>acts w' evs rs ts.
     sync_sessions e False verbose f w = (Inr acts, w') \<and>
     trace w' = trace w @ evs \<and>
     length rs = length (need_spawn e (get_in_progress_beads issues) (list_sessions e (registry w))) \<and>
     length ts = length (need_terminate e (list_sessions e (registry w)) closed_ids) \<and>
     commands evs =
       map2 SpawnCall (need_spawn e (get_in_progress_beads issues) (list_sessions e (registry w))) rs @
       map2 TerminateCall (need_terminate e (list_sessions e (registry w)) closed_ids) ts \<and>
     (\<forall>(b, r) \<in> set (zip (need_spawn e (get_in_progress_beads issues) (list_sessions e (registry w))) rs).
        map_of acts b = Some (if r then ''spawned'' else ''spawn_failed'')) \<and>
     (\<forall>(b, r) \<in> set (zip (need_terminate e (list_sessions e (registry w)) closed_ids) ts).
        map_of acts b = Some (if r then ''terminated'' else ''terminate_failed''))"
proof -
  define ns where "ns = need_spawn e (get_in_progress_beads issues) (list_sessions e (registry w))"
  define nt where "nt = need_terminate e (list_sessions e (registry w)) closed_ids"
  define w1 where "w1 = w\<lparr>trace := trace w @ map Print printed @ [ListCall]\<rparr>"
  have sns: "set ns = set (get_in_progress_beads issues) - set (list_sessions e (registry w))"
    unfolding ns_def by (rule need_spawn_set[OF ok])
  have snt: "set nt = set (list_sessions e (registry w)) \<inter> set closed_ids"
    unfolding nt_def by (rule need_terminate_set[OF ok])
  have dns: "distinct ns" unfolding ns_def by (rule need_spawn_distinct[OF ok])
  have dnt: "distinct nt" unfolding nt_def by (rule need_terminate_distinct[OF ok])
  from sync_sessions_run[OF ok ld cl ti, of False] obtain acts0 w2 acts w3 where
    sp: "spawn_loop e False verbose issues ns [] w1 = (Inr acts0, w2)"
    and tm: "terminate_loop e False verbose nt acts0 w2 = (acts, w3)"
    and sy: "sync_sessions e False verbose f w = (Inr acts, w3)"
    unfolding ns_def nt_def w1_def by blast
  from spawn_loop_calls[OF sp dns] obtain rs evs where
    l1: "length rs = length ns" and t1: "trace w2 = trace w1 @ evs"
    and c1: "commands evs = map2 SpawnCall ns rs"
    and m1: "\<forall>(b, r) \<in> set (zip ns rs). map_of acts0 b = Some (if r then ''spawned'' else ''spawn_failed'')"
    by blast
  from terminate_loop_calls[OF tm dnt] obtain ts evs' where
    l2: "length ts = length nt" and t2: "trace w3 = trace w2 @ evs'"
    and c2: "commands evs' = map2 TerminateCall nt ts"
    and m2: "\<forall>(b, r) \<in> set (zip nt ts). map_of acts b = Some (if r then ''terminated'' else ''terminate_failed'')"
    by blast
  have m1': "\<forall>(b, r) \<in> set (zip ns rs). map_of acts b = Some (if r then ''spawned'' else ''spawn_failed'')"
  proof (clarify)
    fix b r assume br: "(b, r) \<in> set (zip ns rs)"
    then have "b \<in> set ns" by (rule set_zip_leftD)
    then have "b \<notin> set nt" using sns snt by auto
    then have "map_of acts b = map_of acts0 b"
      using terminate_loop_others[of b nt e False verbose acts0 w2] tm by simp
    with m1 br show "map_of acts b = Some (if r then ''spawned'' else ''spawn_failed'')" by auto
  qed
  have tr: "trace w3 = trace w @ ((map Print printed @ [ListCall]) @ evs @ evs')"
    using t1 t2 by (simp add: w1_def)
  have cm: "commands ((map Print printed @ [ListCall]) @ evs @ evs') =
      map2 SpawnCall ns rs @ map2 TerminateCall nt ts"
    using c1 c2 by simp
  from sy tr l1 l2 cm m1' m2 show ?thesis unfolding ns_def nt_def by blast
qed

text \<open>
  C5, at the sample file when the session manager refuses W1: W1 is recorded as failed, W2 is
  still spawned and W3 is still terminated.
\<close>

theorem partial_failure_continues_witness:
  "order_ok (sample_env [KStr ''W1'']) \<and>
   load_issues (json_loads (sample_env [KStr ''W1''])) sample_file = (Inr sample_snapshot, []) \<and>
   get_closed_beads sample_snapshot = Inr [KStr ''W3''] \<and>
   set (get_in_progress_beads sample_snapshot) -
     set (list_sessions (sample_env [KStr ''W1'']) (registry (sample_world [KStr ''W3'']))) =
     {KStr ''W1'', KStr ''W2''} \<and>
   slice50 (bead_title sample_snapshot (KStr ''W1'')) = Inr (JStr ''Unknown'') \<and>
   slice50 (bead_title sample_snapshot (KStr ''W2'')) = Inr (JStr ''Second'') \<and>
   (\<exists>acts w' evs rs ts.
     sync_sessions (sample_env [KStr ''W1'']) False True sample_file (sample_world [KStr ''W3'']) = (Inr acts, w') \<and>
     trace w' = trace (sample_world [KStr ''W3'']) @ evs \<and>
     length rs = length (need_spawn (sample_env [KStr ''W1'']) (get_in_progress_beads sample_snapshot) (list_sessions (sample_env [KStr ''W1'']) (registry (sample_world [KStr ''W3''])))) \<and>
     length ts = length (need_terminate (sample_env [KStr ''W1'']) (list_sessions (sample_env [KStr ''W1'']) (registry (sample_world [KStr ''W3'']))) [KStr ''W3'']) \<and>
     commands evs =
       map2 SpawnCall (need_spawn (sample_env [KStr ''W1'']) (get_in_progress_beads sample_snapshot) (list_sessions (sample_env [KStr ''W1'']) (registry (sample_world [KStr ''W3''])))) rs @
       map2 TerminateCall (need_terminate (sample_env [KStr ''W1'']) (list_sessions (sample_env [KStr ''W1'']) (registry (sample_world [KStr ''W3'']))) [KStr ''W3'']) ts \<and>
     (\<forall>(b, r) \<in> set (zip (need_spawn (sample_env [KStr ''W1'']) (get_in_progress_beads sample_snapshot) (list_sessions (sample_env [KStr ''W1'']) (registry (sample_world [KStr ''W3''])))) rs).
        map_of acts b = Some (if r then ''spawned'' else ''spawn_failed'')) \<and>
     (\<forall>(b, r) \<in> set (zip (need_terminate (sample_env [KStr ''W1'']) (list_sessions (sample_env [KStr ''W1'']) (registry (sample_world [KStr ''W3'']))) [KStr ''W3'']) ts).
        map_of acts b = Some (if r then ''terminated'' else ''terminate_failed''))) \<and>
   sync_sessions (sample_env [KStr ''W1'']) False True sample_file (sample_world [KStr ''W3'']) =
     (Inr [(KStr ''W1'', ''spawn_failed''), (KStr ''W2'', ''spawned''), (KStr ''W3'', ''terminated'')],
      \<lparr>registry = [KStr ''W2''],
         trace = [ListCall,
                  Print (Spawning (KStr ''W1'') (JStr ''Unknown'')), SpawnCall (KStr ''W1'') False,
                  Print (Spawning (KStr ''W2'') (JStr ''Second'')), SpawnCall (KStr ''W2'') True,
                  Print (Terminating (KStr ''W3'')), TerminateCall (KStr ''W3'') True]\<rparr>)"
proof (intro conjI)
  note h = sample_order_ok[of "[KStr ''W1'']"] sample_load[of "[KStr ''W1'']"] sample_closed
    sample_titles_ok[of True "[KStr ''W1'']"]
  show "order_ok (sample_env [KStr ''W1''])" by (rule h(1))
  show "load_issues (json_loads (sample_env [KStr ''W1''])) sample_file = (Inr sample_snapshot, [])"
    by (rule h(2))
  show "get_closed_beads sample_snapshot = Inr [KStr ''W3'']" by (rule h(3))
  show "set (get_in_progress_beads sample_snapshot) -
     set (list_sessions (sample_env [KStr ''W1'']) (registry (sample_world [KStr ''W3'']))) =
     {KStr ''W1'', KStr ''W2''}" by (rule sample_to_spawn)
  show "slice50 (bead_title sample_snapshot (KStr ''W1'')) = Inr (JStr ''Unknown'')"
    by (rule sample_titles(1))
  show "slice50 (bead_title sample_snapshot (KStr ''W2'')) = Inr (JStr ''Second'')"
    by (rule sample_titles(2))
  show "\<exists>acts w' evs rs ts.
     sync_sessions (sample_env [KStr ''W1'']) False True sample_file (sample_world [KStr ''W3'']) = (Inr acts, w') \<and>
     trace w' = trace (sample_world [KStr ''W3'']) @ evs \<and>
     length rs = length (need_spawn (sample_env [KStr ''W1'']) (get_in_progress_beads sample_snapshot) (list_sessions (sample_env [KStr ''W1'']) (registry (sample_world [KStr ''W3''])))) \<and>
     length ts = length (need_terminate (sample_env [KStr ''W1'']) (list_sessions (sample_env [KStr ''W1'']) (registry (sample_world [KStr ''W3'']))) [KStr ''W3'']) \<and>
     commands evs =
       map2 SpawnCall (need_spawn (sample_env [KStr ''W1'']) (get_in_progress_beads sample_snapshot) (list_sessions (sample_env [KStr ''W1'']) (registry (sample_world [KStr ''W3''])))) rs @
       map2 TerminateCall (need_terminate (sample_env [KStr ''W1'']) (list_sessions (sample_env [KStr ''W1'']) (registry (sample_world [KStr ''W3'']))) [KStr ''W3'']) ts \<and>
     (\<forall>(b, r) \<in> set (zip (need_spawn (sample_env [KStr ''W1'']) (get_in_progress_beads sample_snapshot) (list_sessions (sample_env [KStr ''W1'']) (registry (sample_world [KStr ''W3''])))) rs).
        map_of acts b = Some (if r then ''spawned'' else ''spawn_failed'')) \<and>
     (\<forall>(b, r) \<in> set (zip (need_terminate (sample_env [KStr ''W1'']) (list_sessions (sample_env [KStr ''W1'']) (registry (sample_world [KStr ''W3'']))) [KStr ''W3'']) ts).
        map_of acts b = Some (if r then ''terminated'' else ''terminate_failed''))"
    by (rule partial_failure_continues[OF h])
  show "sync_sessions (sample_env [KStr ''W1'']) False True sample_file (sample_world [KStr ''W3'']) =
     (Inr [(KStr ''W1'', ''spawn_failed''), (KStr ''W2'', ''spawned''), (KStr ''W3'', ''terminated'')],
      \<lparr>registry = [KStr ''W2''],
         trace = [ListCall,
                  Print (Spawning (KStr ''W1'') (JStr ''Unknown'')), SpawnCall (KStr ''W1'') False,
                  Print (Spawning (KStr ''W2'') (JStr ''Second'')), SpawnCall (KStr ''W2'') True,
                  Print (Terminating (KStr ''W3'')), TerminateCall (KStr ''W3'') True]\<rparr>)"
    by (rule sample_pass)
qed

section \<open>Claims about the watch loop\<close>

text \<open>
  C9, as the code has it. On the first tick (\<^verbatim>\<open>last_mtime\<close> is 0), when the issues file exists
  and its modification time is positive, the tick is exactly one pass: its result and its
  effects are those of one call of \<open>sync_sessions\<close>, followed by the count of actions when
  there are any, and no "changed" notice is printed. On any tick whose modification time does
  not exceed \<^verbatim>\<open>last_mtime\<close>, and on any tick that finds no issues file, nothing runs and
  nothing changes.
\<close>

theorem watch_baseline:
  "(f \<noteq> Absent \<and> 0 < mtime \<longrightarrow>
      watch_tick e dry_run verbose (f, mtime) 0 w =
        (case sync_sessions e dry_run verbose f w of
           (Inl err, w2) \<Rightarrow> (Inl err, w2)
         | (Inr acts, w2) \<Rightarrow>
             (Inr mtime, if acts \<noteq> [] then emit (Print (ActionCount (length acts))) w2 else w2)) \<and>
      (\<exists>evs. trace (snd (watch_tick e dry_run verbose (f, mtime) 0 w)) = trace w @ evs \<and>
             Print Changed \<notin> set evs)) \<and>
   (mtime \<le> last_mtime \<longrightarrow> watch_tick e dry_run verbose (f, mtime) last_mtime w = (Inr last_mtime, w)) \<and>
   watch_tick e dry_run verbose (Absent, mtime) last_mtime w = (Inr last_mtime, w)"
proof (intro conjI impI)
  assume a: "f \<noteq> Absent \<and> 0 < mtime"
  then show eq: "watch_tick e dry_run verbose (f, mtime) 0 w =
        (case sync_sessions e dry_run verbose f w of
           (Inl err, w2) \<Rightarrow> (Inl err, w2)
         | (Inr acts, w2) \<Rightarrow>
             (Inr mtime, if acts \<noteq> [] then emit (Print (ActionCount (length acts))) w2 else w2))"
    by (simp add: watch_tick_def)
  obtain r w2 where sy: "sync_sessions e dry_run verbose f w = (r, w2)"
    by (cases "sync_sessions e dry_run verbose f w")
  from sync_sessions_trace[of e dry_run verbose f w] sy obtain evs where
    t: "trace w2 = trace w @ evs" "Print Changed \<notin> set evs" by auto
  show "\<exists>evs. trace (snd (watch_tick e dry_run verbose (f, mtime) 0 w)) = trace w @ evs \<and>
             Print Changed \<notin> set evs"
  proof (cases r)
    case (Inl err)
    with eq sy t show ?thesis by simp
  next
    case (Inr acts)
    show ?thesis
    proof (cases "acts = []")
      case True
      with eq sy Inr t show ?thesis by simp
    next
      case False
      with eq sy Inr have "trace (snd (watch_tick e dry_run verbose (f, mtime) 0 w)) =
          trace w @ (evs @ [Print (ActionCount (length acts))])"
        using t by (simp add: emit_def)
      moreover have "Print Changed \<notin> set (evs @ [Print (ActionCount (length acts))])"
        using t by simp
      ultimately show ?thesis by blast
    qed
  qed
next
  assume "mtime \<le> last_mtime"
  then show "watch_tick e dry_run verbose (f, mtime) last_mtime w = (Inr last_mtime, w)"
    by (simp add: watch_tick_def)
next
  show "watch_tick e dry_run verbose (Absent, mtime) last_mtime w = (Inr last_mtime, w)"
    by (simp add: watch_tick_def)
qed

lemma sample_first_pass:
  "sync_sessions (sample_env []) False True sample_file (sample_world []) =
     (Inr [(KStr ''W1'', ''spawned''), (KStr ''W2'', ''spawned'')],
      \<lparr>registry = [KStr ''W1'', KStr ''W2''],
         trace = [ListCall,
                  Print (Spawning (KStr ''W1'') (JStr ''Unknown'')), SpawnCall (KStr ''W1'') True,
                  Print (Spawning (KStr ''W2'') (JStr ''Second'')), SpawnCall (KStr ''W2'') True]\<rparr>)"
  unfolding sync_sessions_unfold[OF sample_load sample_closed]
  by (simp add: need_spawn_def need_terminate_def sample_in_progress sample_titles sample_env_def
      sample_world_def emit_def)

text \<open>
  C9, at the sample file seen with modification time 100: the first tick spawns W1 and W2
  without a "changed" notice, and a second tick at the same time does nothing.
\<close>

theorem watch_baseline_witness:
  "sample_file \<noteq> Absent \<and> (0::rat) < 100 \<and> (100::rat) \<le> 100 \<and>
   watch_tick (sample_env []) False True (sample_file, 100) 0 (sample_world []) =
     (Inr 100,
      \<lparr>registry = [KStr ''W1'', KStr ''W2''],
         trace = [ListCall,
                  Print (Spawning (KStr ''W1'') (JStr ''Unknown'')), SpawnCall (KStr ''W1'') True,
                  Print (Spawning (KStr ''W2'') (JStr ''Second'')), SpawnCall (KStr ''W2'') True,
                  Print (ActionCount 2)]\<rparr>) \<and>
   watch_tick (sample_env []) False True (sample_file, 100) 100 (sample_world [KStr ''W1'', KStr ''W2'']) =
     (Inr 100, sample_world [KStr ''W1'', KStr ''W2''])"
proof -
  have a: "sample_file \<noteq> Absent" by (simp add: sample_file_def)
  have b: "(0::rat) < 100" and c: "(100::rat) \<le> 100" by simp_all
  note first = watch_baseline[of sample_file 100 "sample_env []" False True "sample_world []" 100]
  note later = watch_baseline[of sample_file 100 "sample_env []" False True
      "sample_world [KStr ''W1'', KStr ''W2'']" 100]
  have "watch_tick (sample_env []) False True (sample_file, 100) 0 (sample_world []) =
        (case sync_sessions (sample_env []) False True sample_file (sample_world []) of
           (Inl err, w2) \<Rightarrow> (Inl err, w2)
         | (Inr acts, w2) \<Rightarrow>
             (Inr 100, if acts \<noteq> [] then emit (Print (ActionCount (length acts))) w2 else w2))"
    using conjunct1[OF mp[OF conjunct1[OF first] conjI[OF a b]]] .
  then have t1: "watch_tick (sample_env []) False True (sample_file, 100) 0 (sample_world []) =
     (Inr 100,
      \<lparr>registry = [KStr ''W1'', KStr ''W2''],
         trace = [ListCall,
                  Print (Spawning (KStr ''W1'') (JStr ''Unknown'')), SpawnCall (KStr ''W1'') True,
                  Print (Spawning (KStr ''W2'') (JStr ''Second'')), SpawnCall (KStr ''W2'') True,
                  Print (ActionCount 2)]\<rparr>)"
    unfolding sample_first_pass by (simp add: emit_def)
  have t2: "watch_tick (sample_env []) False True (sample_file, 100) 100 (sample_world [KStr ''W1'', KStr ''W2'']) =
     (Inr 100, sample_world [KStr ''W1'', KStr ''W2''])"
    using mp[OF conjunct1[OF conjunct2[OF later]] c] .
  show ?thesis
    by (intro conjI a b c t1 t2)
qed

text \<open>
  C9 as stated fails: when the issues file does not exist on the first tick, the loop runs no
  pass at all (a pass on the same input would have listed the sessions).
\<close>

theorem watch_first_tick_absent:
  "watch_loop (sample_env []) False True [(Absent, 0)] (sample_world []) =
     (Inr 0, \<lparr>registry = [], trace = [Print Started, Print Stopped]\<rparr>) \<and>
   sync_sessions (sample_env []) False True Absent (sample_world []) =
     (Inr [], \<lparr>registry = [], trace = [ListCall]\<rparr>)"
  by (simp add: watch_loop_def watch_tick_def sync_sessions_def load_issues_def emit_def
      sample_env_def sample_world_def get_in_progress_beads_def need_spawn_def need_terminate_def
      AUTO_SPAWN_ENABLED_def AUTO_TERMINATE_ENABLED_def)

end
